theory Spec2Isabelle
  imports Main "HOL-Library.Sublist" "HOL-Library.Char_ord" "HOL-Library.List_Lexorder"
begin

section \<open>Python values, records and errors\<close>

text \<open>
  The records that flow through the client are the dictionaries that \<^verbatim>\<open>json.loads\<close>
  returns. A field value is an integer (Python's unbounded \<^verbatim>\<open>int\<close>), a string, or a list
  of strings (the \<^verbatim>\<open>tags\<close>). A dictionary is an association list read with \<open>map_of\<close>;
  \<^verbatim>\<open>d[k]\<close> on a missing key raises \<^verbatim>\<open>KeyError\<close>. Floating point numbers are outside the
  model. The semantics is that of Python 3: \<^verbatim>\<open>str\<close> of a string is the string, and
  ordering values of different types raises \<^verbatim>\<open>TypeError\<close>.
\<close>

datatype pyval = PInt int | PStr string | PList "string list"

type_synonym pydict = "(string \<times> pyval) list"

text \<open>An argument that may also be a whole dictionary (which cannot be hashed).\<close>

datatype pyobj = Val pyval | Dict pydict

datatype py_error = KeyError string | TypeError | AttributeError | ValueError

definition getitem :: "pydict \<Rightarrow> string \<Rightarrow> py_error + pyval" where
  "getitem d k = (case map_of d k of None \<Rightarrow> Inl (KeyError k) | Some v \<Rightarrow> Inr v)"

text \<open>Only integers and strings can be members of a Python \<^verbatim>\<open>set\<close>; a list is unhashable.\<close>

fun hashable :: "pyval \<Rightarrow> bool" where
  "hashable (PInt _) = True"
| "hashable (PStr _) = True"
| "hashable (PList _) = False"

subsection \<open>\<^verbatim>\<open>str.split\<close> and \<^verbatim>\<open>str.join\<close>\<close>

text \<open>\<^verbatim>\<open>s.split(c)\<close> for a one-character separator: never empty, \<^verbatim>\<open>''.split('.') == ['']\<close>.\<close>

fun split_on :: "char \<Rightarrow> string \<Rightarrow> string list" where
  "split_on c [] = [[]]"
| "split_on c (x # xs) =
     (if x = c then [] # split_on c xs
      else (case split_on c xs of [] \<Rightarrow> [[x]] | w # ws \<Rightarrow> (x # w) # ws))"

fun join_with :: "string \<Rightarrow> string list \<Rightarrow> string" where
  "join_with s [] = []"
| "join_with s [x] = x"
| "join_with s (x # y # ys) = x @ s @ join_with s (y # ys)"

section \<open>The FQDN plugin (\<^verbatim>\<open>cifsdk/feed/fqdn.py\<close>)\<close>

definition FQDN_PERM_WHITELIST :: "string list" where
  "FQDN_PERM_WHITELIST =
    [''google.com'', ''yahoo.com'', ''facebook.com'', ''youtube.com'', ''netflix.com'',
     ''baidu.com'', ''wikipedia.org'', ''twitter.com'', ''qq.com'', ''taobao.com'',
     ''amazon.com'', ''live.com'', ''bing.com'', ''wordpress.com'', ''msn.com'',
     ''update.symantec.com'']"

text \<open>The instance state of \<^verbatim>\<open>Fqdn\<close>: the attribute \<^verbatim>\<open>self.wl\<close>, a set.\<close>

record fqdn =
  wl :: "pyval set"

text \<open>\<^verbatim>\<open>Fqdn.__init__\<close>: the set starts empty and receives every permanent entry.\<close>

definition fqdn_init :: fqdn where
  "fqdn_init = \<lparr> wl = fold (\<lambda>w s. insert (PStr w) s) FQDN_PERM_WHITELIST {} \<rparr>"

text \<open>
  \<^verbatim>\<open>Fqdn.match_whitelist\<close>. The source iterates \<^verbatim>\<open>enumerate(bits)\<close> while the body pops the
  first element of \<^verbatim>\<open>bits\<close>. A list iterator holds an index \<open>i\<close> and stops as soon as
  \<open>i\<close> is no longer below the current length of the list, so the loop is over the pair of
  the shrinking list and the growing index. Falling off the end returns \<^verbatim>\<open>None\<close>, which the
  only caller tests with \<^verbatim>\<open>not\<close>; it is \<open>False\<close> here.
\<close>

function mw_loop :: "pyval set \<Rightarrow> string list \<Rightarrow> nat \<Rightarrow> bool" where
  "mw_loop s bits i =
     (if i < length bits
      then (if PStr (join_with ''.'' bits) \<in> s then True else mw_loop s (tl bits) (Suc i))
      else False)"
  by pat_completeness auto
termination
  by (relation "measure (\<lambda>(s, bits, i). length bits - i)") auto

declare mw_loop.simps [simp del]

definition match_whitelist :: "pyval set \<Rightarrow> string \<Rightarrow> bool" where
  "match_whitelist s d = mw_loop s (split_on CHR ''.'' d) 0"

text \<open>
  \<^verbatim>\<open>Fqdn.process\<close>, first loop: \<^verbatim>\<open>wl\<close> is an alias of \<^verbatim>\<open>self.wl\<close>, so every \<^verbatim>\<open>wl.add(w)\<close>
  changes the instance. Adding an unhashable object raises \<^verbatim>\<open>TypeError\<close>; what was added
  before stays. The result is the set reached and the error, if any.
\<close>

fun fqdn_add_all :: "pyval set \<Rightarrow> pyobj list \<Rightarrow> pyval set \<times> py_error option" where
  "fqdn_add_all s [] = (s, None)"
| "fqdn_add_all s (Dict r # ws) = (s, Some TypeError)"
| "fqdn_add_all s (Val v # ws) =
     (if hashable v then fqdn_add_all (insert v s) ws else (s, Some TypeError))"

text \<open>
  Second loop: \<^verbatim>\<open>x['observable']\<close> raises \<^verbatim>\<open>KeyError\<close> on a record without the field, and
  \<^verbatim>\<open>.split\<close> raises \<^verbatim>\<open>AttributeError\<close> on a value that is not a string.
\<close>

fun fqdn_loop :: "pyval set \<Rightarrow> pydict list \<Rightarrow> pydict list \<Rightarrow> py_error + pydict list" where
  "fqdn_loop s [] rv = Inr rv"
| "fqdn_loop s (x # xs) rv =
     (case getitem x ''observable'' of
        Inl e \<Rightarrow> Inl e
      | Inr (PStr d) \<Rightarrow> fqdn_loop s xs (if \<not> match_whitelist s d then rv @ [x] else rv)
      | Inr _ \<Rightarrow> Inl AttributeError)"

text \<open>The method returns the instance as it leaves it, and the feed or the exception.\<close>

definition fqdn_process ::
  "fqdn \<Rightarrow> pydict list \<Rightarrow> pyobj list \<Rightarrow> fqdn \<times> (py_error + pydict list)" where
  "fqdn_process self data whitelist =
     (case fqdn_add_all (wl self) whitelist of
        (s, Some e) \<Rightarrow> (self\<lparr>wl := s\<rparr>, Inl e)
      | (s, None) \<Rightarrow> (self\<lparr>wl := s\<rparr>, fqdn_loop s data []))"

section \<open>\<^verbatim>\<open>str\<close> of a value\<close>

definition digit_char :: "nat \<Rightarrow> char" where
  "digit_char n = char_of (48 + n)"

fun digits :: "nat \<Rightarrow> string" where
  "digits n = (if n < 10 then [digit_char n] else digits (n div 10) @ [digit_char (n mod 10)])"

declare digits.simps [simp del]

definition str_of_int :: "int \<Rightarrow> string" where
  "str_of_int i = (if i < 0 then CHR ''-'' # digits (nat (- i)) else digits (nat i))"

definition hex_char :: "nat \<Rightarrow> char" where
  "hex_char n = (if n < 10 then char_of (48 + n) else char_of (87 + n))"

text \<open>
  \<^verbatim>\<open>repr\<close> of a string, as \<^verbatim>\<open>str\<close> of a list shows its elements: single quotes unless the
  string has a single quote and no double quote; the quote and the backslash are escaped,
  control characters are written \<^verbatim>\<open>\t\<close>, \<^verbatim>\<open>\n\<close>, \<^verbatim>\<open>\r\<close> or \<^verbatim>\<open>\xhh\<close>. Bytes above 127 belong to
  the UTF-8 form of a character and are kept.
\<close>

definition repr_char :: "char \<Rightarrow> char \<Rightarrow> string" where
  "repr_char q c =
     (if c = q \<or> c = CHR 0x5C then [CHR 0x5C, c]
      else if c = CHR 0x09 then [CHR 0x5C, CHR ''t'']
      else if c = CHR 0x0A then [CHR 0x5C, CHR ''n'']
      else if c = CHR 0x0D then [CHR 0x5C, CHR ''r'']
      else if of_char c < (32::nat) \<or> of_char c = (127::nat)
        then [CHR 0x5C, CHR ''x'', hex_char (of_char c div 16), hex_char (of_char c mod 16)]
      else [c])"

definition repr_str :: "string \<Rightarrow> string" where
  "repr_str s =
     (let q = (if CHR 0x27 \<in> set s \<and> CHR 0x22 \<notin> set s then CHR 0x22 else CHR 0x27)
      in [q] @ concat (map (repr_char q) s) @ [q])"

fun py_str :: "pyval \<Rightarrow> string" where
  "py_str (PStr s) = s"
| "py_str (PInt i) = str_of_int i"
| "py_str (PList xs) = ''['' @ join_with '', '' (map repr_str xs) @ '']''"

section \<open>The prefix matcher\<close>

subsection \<open>Key strings\<close>

text \<open>
  Modelled from the spec: the class \<^verbatim>\<open>pytricia.PyTricia\<close> that \<^verbatim>\<open>ipv4.py\<close> imports is a
  third-party library and not part of the sources, and so is its reading of key strings.
  The specification (4.1, PrefixMatcher) has CIDR blocks and single addresses as keys and
  lets malformed input fail. A decimal digit.
\<close>

definition is_digit :: "char \<Rightarrow> bool" where
  "is_digit c = (CHR ''0'' \<le> c \<and> c \<le> CHR ''9'')"

text \<open>Modelled from the spec: the number that a string of decimal digits of a key denotes.\<close>

definition dec_value :: "string \<Rightarrow> nat" where
  "dec_value s = foldl (\<lambda>n c. 10 * n + (of_char c - 48)) 0 s"

text \<open>Modelled from the spec: a number in a key is one to three decimal digits.\<close>

definition parse_dec :: "string \<Rightarrow> nat option" where
  "parse_dec s =
     (if s \<noteq> [] \<and> length s \<le> 3 \<and> list_all is_digit s then Some (dec_value s) else None)"

text \<open>Modelled from the spec: the eight bits of an octet of an address, most significant first.\<close>

definition octet_bits :: "nat \<Rightarrow> bool list" where
  "octet_bits n = map (\<lambda>i. odd (n div 2 ^ i)) [7, 6, 5, 4, 3, 2, 1, 0]"

text \<open>
  Modelled from the spec: an octet of an IPv4 literal is written without a leading zero
  (\<^verbatim>\<open>0\<close> itself apart); \<^verbatim>\<open>01.2.3.4\<close> is malformed.
\<close>

fun no_leading_zero :: "string \<Rightarrow> bool" where
  "no_leading_zero [] = False"
| "no_leading_zero [c] = True"
| "no_leading_zero (c # cs) = (c \<noteq> CHR ''0'')"

text \<open>Modelled from the spec: an octet of an IPv4 literal is a number up to 255.\<close>

definition parse_octet :: "string \<Rightarrow> bool list option" where
  "parse_octet s =
     (case parse_dec s of
        None \<Rightarrow> None
      | Some n \<Rightarrow> if n \<le> 255 \<and> no_leading_zero s then Some (octet_bits n) else None)"

text \<open>
  Modelled from the spec: an IPv4 literal is four octets separated by dots; its value is
  the list of its 32 bits.
\<close>

definition parse_addr :: "string \<Rightarrow> bool list option" where
  "parse_addr s =
     (case map parse_octet (split_on CHR ''.'' s) of
        [Some a, Some b, Some c, Some d] \<Rightarrow> Some (a @ b @ c @ d)
      | _ \<Rightarrow> None)"

text \<open>
  Modelled from the spec: the block that the library reads from a key string, as the bits
  of the address that the prefix length keeps. The length stands after a slash, and a
  length above 32 counts as 32. The first argument is the length that the library gives a
  key without a slash. For a lookup that is 32, the key being the whole address (4.1:
  \<^verbatim>\<open>Contains(address)\<close> is whether the address falls inside an inserted block). For an
  insertion it is 0: the comment at the work-around in \<^verbatim>\<open>Ipv4.process\<close> reports that the
  library inserts \<^verbatim>\<open>172.16.1.60\<close> "with a /0 at the end", which is why the method appends
  \<^verbatim>\<open>/32\<close> itself. The default-prefix rule of 4.1 (a bare address is a /32 on insertion)
  describes the library and that work-around together.
\<close>

definition parse_cidr :: "nat \<Rightarrow> string \<Rightarrow> bool list option" where
  "parse_cidr bare s =
     (case split_on CHR ''/'' s of
        [a] \<Rightarrow> map_option (take bare) (parse_addr a)
      | [a, l] \<Rightarrow>
          (case (parse_addr a, parse_dec l) of
             (Some bits, Some n) \<Rightarrow> Some (take (min n 32) bits)
           | _ \<Rightarrow> None)
      | _ \<Rightarrow> None)"

subsection \<open>The trie\<close>

text \<open>
  Modelled from the spec: the class \<^verbatim>\<open>pytricia.PyTricia\<close> itself. The specification (4.1)
  requires a binary trie keyed on the address bits. A node carries the mark of a stored
  block and the subtries for the next bit being 0 and 1.
\<close>

datatype pytricia = Leaf | Node bool pytricia pytricia

text \<open>Modelled from the spec: inserting a block marks the node at the end of its bits.\<close>

fun trie_insert :: "bool list \<Rightarrow> pytricia \<Rightarrow> pytricia" where
  "trie_insert [] Leaf = Node True Leaf Leaf"
| "trie_insert [] (Node m l r) = Node True l r"
| "trie_insert (b # bs) Leaf =
     (if b then Node False Leaf (trie_insert bs Leaf) else Node False (trie_insert bs Leaf) Leaf)"
| "trie_insert (b # bs) (Node m l r) =
     (if b then Node m l (trie_insert bs r) else Node m (trie_insert bs l) r)"

text \<open>
  Modelled from the spec: a key falls inside an inserted block if the walk along its bits
  meets a marked node.
\<close>

fun search_best :: "pytricia \<Rightarrow> bool list \<Rightarrow> bool" where
  "search_best Leaf ks = False"
| "search_best (Node m l r) [] = m"
| "search_best (Node m l r) (k # ks) = (m \<or> search_best (if k then r else l) ks)"

text \<open>
  Modelled from the spec: \<^verbatim>\<open>wl[x] = True\<close> inserts the block of \<open>x\<close>; malformed input fails
  (\<^verbatim>\<open>InvalidAddress\<close> in 4.1, Python's \<open>ValueError\<close> here).
\<close>

definition pytricia_setitem :: "pytricia \<Rightarrow> string \<Rightarrow> py_error + pytricia" where
  "pytricia_setitem t x =
     (case parse_cidr 0 x of None \<Rightarrow> Inl ValueError | Some p \<Rightarrow> Inr (trie_insert p t))"

text \<open>Modelled from the spec: \<^verbatim>\<open>x in wl\<close> is whether the key \<open>x\<close> falls inside a stored block.\<close>

definition pytricia_contains :: "pytricia \<Rightarrow> string \<Rightarrow> py_error + bool" where
  "pytricia_contains t x =
     (case parse_cidr 32 x of None \<Rightarrow> Inl ValueError | Some k \<Rightarrow> Inr (search_best t k))"

section \<open>The IPv4 plugin (\<^verbatim>\<open>cifsdk/feed/ipv4.py\<close>)\<close>

definition IPV4_PERM_WHITELIST :: "string list" where
  "IPV4_PERM_WHITELIST =
    [''0.0.0.0/8'', ''10.0.0.0/8'', ''127.0.0.0/8'', ''192.168.0.0/16'', ''169.254.0.0/16'',
     ''192.0.2.0/24'', ''224.0.0.0/4'', ''240.0.0.0/5'', ''248.0.0.0/5'']"

text \<open>
  \<^verbatim>\<open>tag_contains_whitelist\<close>: the loop over \<^verbatim>\<open>data\<close>. Iterating a string yields its
  characters as one-character strings, iterating an integer raises \<^verbatim>\<open>TypeError\<close>. The
  function returns \<^verbatim>\<open>True\<close> or falls off its end (\<^verbatim>\<open>None\<close>, tested by \<^verbatim>\<open>if\<close>: \<open>False\<close>).
\<close>

fun tcw_loop :: "string list \<Rightarrow> bool" where
  "tcw_loop [] = False"
| "tcw_loop (d # ds) = (if d = ''whitelist'' then True else tcw_loop ds)"

fun tag_contains_whitelist :: "pyval \<Rightarrow> py_error + bool" where
  "tag_contains_whitelist (PList ds) = Inr (tcw_loop ds)"
| "tag_contains_whitelist (PStr s) = Inr (tcw_loop (map (\<lambda>c. [c]) s))"
| "tag_contains_whitelist (PInt i) = Inl TypeError"

text \<open>First loop of \<^verbatim>\<open>Ipv4.process\<close>: the permanent blocks.\<close>

fun ipv4_perm_loop :: "pytricia \<Rightarrow> string list \<Rightarrow> py_error + pytricia" where
  "ipv4_perm_loop t [] = Inr t"
| "ipv4_perm_loop t (x # xs) =
     (case pytricia_setitem t x of Inl e \<Rightarrow> Inl e | Inr t' \<Rightarrow> ipv4_perm_loop t' xs)"

text \<open>Second loop: the dynamic whitelist; a key without a slash receives \<^verbatim>\<open>/32\<close>.\<close>

definition ipv4_wl_key :: "pyval \<Rightarrow> string" where
  "ipv4_wl_key v = (let y = py_str v in if \<not> CHR ''/'' \<in> set y then y @ ''/32'' else y)"

fun ipv4_wl_loop :: "pytricia \<Rightarrow> pydict list \<Rightarrow> py_error + pytricia" where
  "ipv4_wl_loop t [] = Inr t"
| "ipv4_wl_loop t (y # ys) =
     (case getitem y ''observable'' of
        Inl e \<Rightarrow> Inl e
      | Inr v \<Rightarrow>
          (case pytricia_setitem t (ipv4_wl_key v) of
             Inl e \<Rightarrow> Inl e
           | Inr t' \<Rightarrow> ipv4_wl_loop t' ys))"

text \<open>Third loop: the records; a tagged record is skipped before its observable is read.\<close>

fun ipv4_loop :: "pytricia \<Rightarrow> pydict list \<Rightarrow> pydict list \<Rightarrow> py_error + pydict list" where
  "ipv4_loop t [] rv = Inr rv"
| "ipv4_loop t (y # ys) rv =
     (case getitem y ''tags'' of
        Inl e \<Rightarrow> Inl e
      | Inr tg \<Rightarrow>
          (case tag_contains_whitelist tg of
             Inl e \<Rightarrow> Inl e
           | Inr True \<Rightarrow> ipv4_loop t ys rv
           | Inr False \<Rightarrow>
               (case getitem y ''observable'' of
                  Inl e \<Rightarrow> Inl e
                | Inr v \<Rightarrow>
                    (case pytricia_contains t (py_str v) of
                       Inl e \<Rightarrow> Inl e
                     | Inr b \<Rightarrow> ipv4_loop t ys (if \<not> b then rv @ [y] else rv)))))"

definition ipv4_process :: "pydict list \<Rightarrow> pydict list \<Rightarrow> py_error + pydict list" where
  "ipv4_process data whitelist =
     (case ipv4_perm_loop Leaf IPV4_PERM_WHITELIST of
        Inl e \<Rightarrow> Inl e
      | Inr t \<Rightarrow>
          (case ipv4_wl_loop t whitelist of
             Inl e \<Rightarrow> Inl e
           | Inr t' \<Rightarrow> ipv4_loop t' data []))"

section \<open>Aggregation (\<^verbatim>\<open>Client.aggregate\<close> in \<^verbatim>\<open>cifsdk/client.py\<close>)\<close>

subsection \<open>Ordering of values\<close>

text \<open>
  Integers are ordered by value, strings and lists lexicographically. Python 3 refuses to
  order values of different types; \<open>py_le\<close> places them by the name of their type
  (\<^verbatim>\<open>int\<close>, \<^verbatim>\<open>list\<close>, \<^verbatim>\<open>str\<close>) so that the order is total, and \<open>py_sorted_reverse\<close> below
  raises \<^verbatim>\<open>TypeError\<close> before that part of the order is ever consulted.
\<close>

fun py_le :: "pyval \<Rightarrow> pyval \<Rightarrow> bool" where
  "py_le (PInt a) (PInt b) = (a \<le> b)"
| "py_le (PInt a) (PList b) = True"
| "py_le (PInt a) (PStr b) = True"
| "py_le (PList a) (PInt b) = False"
| "py_le (PList a) (PList b) = (a \<le> b)"
| "py_le (PList a) (PStr b) = True"
| "py_le (PStr a) (PInt b) = False"
| "py_le (PStr a) (PList b) = False"
| "py_le (PStr a) (PStr b) = (a \<le> b)"

instantiation pyval :: linorder
begin

definition less_eq_pyval :: "pyval \<Rightarrow> pyval \<Rightarrow> bool" where
  "less_eq_pyval a b = py_le a b"

definition less_pyval :: "pyval \<Rightarrow> pyval \<Rightarrow> bool" where
  "less_pyval a b = (py_le a b \<and> \<not> py_le b a)"

instance
proof
  fix a b c :: pyval
  show "(a < b) = (a \<le> b \<and> \<not> b \<le> a)"
    by (simp add: less_eq_pyval_def less_pyval_def)
  show "a \<le> a"
    by (cases a) (simp_all add: less_eq_pyval_def)
  show "a \<le> b \<Longrightarrow> b \<le> c \<Longrightarrow> a \<le> c"
    by (cases a; cases b; cases c) (simp_all add: less_eq_pyval_def)
  show "a \<le> b \<Longrightarrow> b \<le> a \<Longrightarrow> a = b"
    by (cases a; cases b) (simp_all add: less_eq_pyval_def)
  show "a \<le> b \<or> b \<le> a"
    by (cases a; cases b) (auto simp add: less_eq_pyval_def)
qed

end

fun same_type :: "pyval \<Rightarrow> pyval \<Rightarrow> bool" where
  "same_type (PInt a) (PInt b) = True"
| "same_type (PStr a) (PStr b) = True"
| "same_type (PList a) (PList b) = True"
| "same_type a b = False"

subsection \<open>\<^verbatim>\<open>sorted(data, key=..., reverse=True)\<close>\<close>

text \<open>The key function is called on every element, in order, before anything is compared.\<close>

fun key_all :: "('a \<Rightarrow> py_error + 'b) \<Rightarrow> 'a list \<Rightarrow> py_error + 'b list" where
  "key_all f [] = Inr []"
| "key_all f (x # xs) =
     (case f x of
        Inl e \<Rightarrow> Inl e
      | Inr k \<Rightarrow> (case key_all f xs of Inl e \<Rightarrow> Inl e | Inr ks \<Rightarrow> Inr (k # ks)))"

text \<open>
  With two keys of different types among them the comparisons raise \<^verbatim>\<open>TypeError\<close>. Otherwise
  the keyed elements are reversed, sorted stably in ascending order of the key and reversed
  again, which is how \<^verbatim>\<open>reverse=True\<close> keeps equal keys in their input order.
\<close>

definition py_sorted_reverse ::
  "('a \<Rightarrow> py_error + pyval) \<Rightarrow> 'a list \<Rightarrow> py_error + 'a list" where
  "py_sorted_reverse key data =
     (case key_all key data of
        Inl e \<Rightarrow> Inl e
      | Inr ks \<Rightarrow>
          if \<not> list_all (\<lambda>a. list_all (same_type a) ks) ks then Inl TypeError
          else Inr (map snd (rev (sort_key fst (rev (zip ks data))))))"

subsection \<open>The loop\<close>

fun agg_loop ::
  "string \<Rightarrow> pydict list \<Rightarrow> pyval set \<Rightarrow> pydict list \<Rightarrow> py_error + pydict list" where
  "agg_loop field [] x rv = Inr rv"
| "agg_loop field (d # ds) x rv =
     (case getitem d field of
        Inl e \<Rightarrow> Inl e
      | Inr v \<Rightarrow>
          if \<not> hashable v then Inl TypeError
          else if v \<notin> x then agg_loop field ds (insert v x) (rv @ [d])
          else agg_loop field ds x rv)"

definition aggregate :: "pydict list \<Rightarrow> string \<Rightarrow> string \<Rightarrow> py_error + pydict list" where
  "aggregate data field sort_by =
     (case py_sorted_reverse (\<lambda>x. getitem x sort_by) data of
        Inl e \<Rightarrow> Inl e
      | Inr sorted_data \<Rightarrow> agg_loop field sorted_data {} [])"

section \<open>The feed branch of \<^verbatim>\<open>main\<close>\<close>

datatype plugin = Ipv4 | Ipv6 | Fqdn | Url

definition plugins :: "string \<rightharpoonup> plugin" where
  "plugins = [''ipv4'' \<mapsto> Ipv4, ''ipv6'' \<mapsto> Ipv6, ''fqdn'' \<mapsto> Fqdn, ''url'' \<mapsto> Url]"

text \<open>\<^verbatim>\<open>factory\<close> in \<^verbatim>\<open>cifsdk/feed/__init__.py\<close>; \<open>None\<close> is Python's \<^verbatim>\<open>None\<close>.\<close>

definition factory :: "string \<Rightarrow> plugin option" where
  "factory name = (if name \<in> dom plugins then plugins name else None)"

text \<open>
  The three statements of \<^verbatim>\<open>main\<close> that build the feed once both searches have returned:
  \<^verbatim>\<open>f = feed_factory(options['otype'])\<close>, \<^verbatim>\<open>ret = cli.aggregate(ret)\<close> and
  \<^verbatim>\<open>ret = f().process(ret, wl)\<close>. Calling \<^verbatim>\<open>None\<close> raises \<^verbatim>\<open>TypeError\<close>. The whitelist is the
  list of dictionaries of the second search. The modules \<^verbatim>\<open>ipv6.py\<close> and \<^verbatim>\<open>url.py\<close> are not
  part of the sources; the \<^verbatim>\<open>process\<close> methods of their classes are parameters.
\<close>

definition main_feed ::
  "(pydict list \<Rightarrow> pydict list \<Rightarrow> py_error + pydict list) \<Rightarrow>
   (pydict list \<Rightarrow> pydict list \<Rightarrow> py_error + pydict list) \<Rightarrow>
   string \<Rightarrow> pydict list \<Rightarrow> pydict list \<Rightarrow> py_error + pydict list" where
  "main_feed ipv6_process url_process otype ret whitelist =
     (let f = factory otype in
      case aggregate ret ''observable'' ''confidence'' of
        Inl e \<Rightarrow> Inl e
      | Inr ret' \<Rightarrow>
          (case f of
             None \<Rightarrow> Inl TypeError
           | Some Ipv4 \<Rightarrow> ipv4_process ret' whitelist
           | Some Ipv6 \<Rightarrow> ipv6_process ret' whitelist
           | Some Fqdn \<Rightarrow> snd (fqdn_process fqdn_init ret' (map Dict whitelist))
           | Some Url \<Rightarrow> url_process ret' whitelist))"

section \<open>Vocabulary of the statements\<close>

text \<open>
  What one pass of a loop contributes, so that the loops can be described as filters:
  whether \<^verbatim>\<open>Fqdn.process\<close> appends a record, the block a whitelist entry inserts, and the
  outcome of one iteration of the last loop of \<^verbatim>\<open>Ipv4.process\<close> (\<open>Inr True\<close>: appended).
\<close>

definition fqdn_kept :: "pyval set \<Rightarrow> pydict \<Rightarrow> bool" where
  "fqdn_kept s x = (\<exists>d. getitem x ''observable'' = Inr (PStr d) \<and> \<not> match_whitelist s d)"

definition wl_block :: "pydict \<Rightarrow> bool list option" where
  "wl_block y =
     (case getitem y ''observable'' of Inl e \<Rightarrow> None | Inr v \<Rightarrow> parse_cidr 0 (ipv4_wl_key v))"

definition ipv4_step :: "pytricia \<Rightarrow> pydict \<Rightarrow> py_error + bool" where
  "ipv4_step t y =
     (case getitem y ''tags'' of
        Inl e \<Rightarrow> Inl e
      | Inr tg \<Rightarrow>
          (case tag_contains_whitelist tg of
             Inl e \<Rightarrow> Inl e
           | Inr True \<Rightarrow> Inr False
           | Inr False \<Rightarrow>
               (case getitem y ''observable'' of
                  Inl e \<Rightarrow> Inl e
                | Inr v \<Rightarrow>
                    (case pytricia_contains t (py_str v) of
                       Inl e \<Rightarrow> Inl e
                     | Inr b \<Rightarrow> Inr (\<not> b)))))"

text \<open>The records that \<open>agg_loop\<close> appends, given the set of keys already seen.\<close>

fun agg_kept :: "string \<Rightarrow> pyval set \<Rightarrow> pydict list \<Rightarrow> pydict list" where
  "agg_kept field x [] = []"
| "agg_kept field x (d # ds) =
     (case getitem d field of
        Inl e \<Rightarrow> []
      | Inr v \<Rightarrow> if v \<in> x then agg_kept field x ds else d # agg_kept field (insert v x) ds)"

text \<open>
  Comparison of two records by a field that both have, and the inputs on which
  \<^verbatim>\<open>aggregate\<close> raises nothing: the rank field present everywhere with values of one type,
  the key field present everywhere with a hashable value.
\<close>

definition field_le :: "string \<Rightarrow> pydict \<Rightarrow> pydict \<Rightarrow> bool" where
  "field_le f a b = (case (getitem a f, getitem b f) of (Inr u, Inr v) \<Rightarrow> u \<le> v | _ \<Rightarrow> False)"

definition sortable :: "string \<Rightarrow> pydict list \<Rightarrow> bool" where
  "sortable f data =
     (\<forall>a\<in>set data. \<forall>b\<in>set data.
        case (getitem a f, getitem b f) of (Inr u, Inr v) \<Rightarrow> same_type u v | _ \<Rightarrow> False)"

definition keyed :: "string \<Rightarrow> pydict list \<Rightarrow> bool" where
  "keyed f data = (\<forall>d\<in>set data. case getitem d f of Inr v \<Rightarrow> hashable v | Inl e \<Rightarrow> False)"

text \<open>Two strings that differ at most in the case of their ASCII letters.\<close>

definition ascii_lower :: "char \<Rightarrow> char" where
  "ascii_lower c = (if CHR ''A'' \<le> c \<and> c \<le> CHR ''Z'' then char_of (of_char c + (32::nat)) else c)"

definition same_modulo_case :: "string \<Rightarrow> string \<Rightarrow> bool" where
  "same_modulo_case a b = (map ascii_lower a = map ascii_lower b)"

text \<open>Four records, two of them with the same observable and the same confidence.\<close>

definition sample_records :: "pydict list" where
  "sample_records =
    [[(''observable'', PStr ''1.2.3.4''), (''confidence'', PInt 85), (''provider'', PStr ''a'')],
     [(''observable'', PStr ''1.2.3.4''), (''confidence'', PInt 85), (''provider'', PStr ''b'')],
     [(''observable'', PStr ''10.1.1.1''), (''confidence'', PInt 90), (''provider'', PStr ''a'')],
     [(''observable'', PStr ''1.2.3.4''), (''confidence'', PInt 40), (''provider'', PStr ''c'')]]"

section \<open>Strings\<close>

lemma split_on_not_Nil: "split_on c s \<noteq> []"
  by (induction s) (auto split: list.splits)

lemma join_split: "join_with [c] (split_on c s) = s"
proof (induction s)
  case Nil
  then show ?case by simp
next
  case (Cons x xs)
  obtain w ws where w: "split_on c xs = w # ws"
    using split_on_not_Nil [of c xs] by (cases "split_on c xs") auto
  with Cons show ?case
    by (cases ws) auto
qed

lemma join_with_append:
  "xs \<noteq> [] \<Longrightarrow> ys \<noteq> [] \<Longrightarrow> join_with sep (xs @ ys) = join_with sep xs @ sep @ join_with sep ys"
proof (induction sep xs rule: join_with.induct)
  case (1 s)
  then show ?case by simp
next
  case (2 s x)
  then show ?case by (cases ys) simp_all
next
  case (3 s x y zs)
  then show ?case by simp
qed

lemma join_drop_split:
  assumes "j < length (split_on c d)"
  shows "join_with [c] (drop j (split_on c d)) = d \<or>
         (\<exists>p. d = p @ [c] @ join_with [c] (drop j (split_on c d)))"
proof (cases j)
  case 0
  then show ?thesis by (simp add: join_split)
next
  case (Suc n)
  let ?L = "split_on c d"
  from Suc assms have "take j ?L \<noteq> []" "drop j ?L \<noteq> []" by auto
  from join_with_append [OF this, of "[c]"]
  have "d = join_with [c] (take j ?L) @ [c] @ join_with [c] (drop j ?L)"
    by (simp add: join_split)
  then show ?thesis by blast
qed

section \<open>The suffix matcher and \<^verbatim>\<open>Fqdn.process\<close>\<close>

lemma mw_loop_iff:
  "mw_loop s bits i \<longleftrightarrow>
     (\<exists>j. i + 2 * j < length bits \<and> PStr (join_with ''.'' (drop j bits)) \<in> s)"
proof (induction s bits i rule: mw_loop.induct)
  case (1 s bits i)
  show ?case
  proof (cases "i < length bits \<and> PStr (join_with ''.'' bits) \<notin> s")
    case True
    then have "mw_loop s bits i = mw_loop s (tl bits) (Suc i)"
      by (subst mw_loop.simps) simp
    also have "\<dots> \<longleftrightarrow> (\<exists>j. Suc i + 2 * j < length (tl bits) \<and>
        PStr (join_with ''.'' (drop j (tl bits))) \<in> s)"
      using True by (intro "1.IH") simp_all
    also have "\<dots> \<longleftrightarrow> (\<exists>j. i + 2 * Suc j < length bits \<and>
        PStr (join_with ''.'' (drop (Suc j) bits)) \<in> s)"
    proof -
      have a: "(Suc i + 2 * j < length (tl bits)) = (i + 2 * Suc j < length bits)" for j
        by (simp only: length_tl) arith
      have b: "drop j (tl bits) = drop (Suc j) bits" for j
        by (simp add: drop_Suc)
      show ?thesis by (simp only: a b)
    qed
    also have "\<dots> \<longleftrightarrow> (\<exists>j. i + 2 * j < length bits \<and>
        PStr (join_with ''.'' (drop j bits)) \<in> s)" (is "?L \<longleftrightarrow> ?R")
    proof
      assume ?L then show ?R by blast
    next
      assume ?R
      then obtain j where j: "i + 2 * j < length bits" "PStr (join_with ''.'' (drop j bits)) \<in> s"
        by blast
      with True have "j \<noteq> 0" by (cases j) auto
      then obtain j' where "j = Suc j'" by (cases j) auto
      with j show ?L by blast
    qed
    finally show ?thesis .
  next
    case False
    then consider "\<not> i < length bits" | "i < length bits" "PStr (join_with ''.'' bits) \<in> s"
      by blast
    then show ?thesis
    proof cases
      case 1
      then show ?thesis by (subst mw_loop.simps) simp
    next
      case 2
      then have "mw_loop s bits i" by (subst mw_loop.simps) simp
      moreover from 2 have "i + 2 * 0 < length bits \<and> PStr (join_with ''.'' (drop 0 bits)) \<in> s"
        by simp
      ultimately show ?thesis by blast
    qed
  qed
qed

lemma match_whitelist_iff:
  "match_whitelist s d \<longleftrightarrow>
     (\<exists>j. 2 * j < length (split_on CHR ''.'' d) \<and>
          PStr (join_with ''.'' (drop j (split_on CHR ''.'' d))) \<in> s)"
  by (simp add: match_whitelist_def mw_loop_iff)

lemma match_whitelist_mono: "s \<subseteq> s' \<Longrightarrow> match_whitelist s d \<Longrightarrow> match_whitelist s' d"
  unfolding match_whitelist_iff by blast

lemma match_whitelist_literal:
  assumes "match_whitelist s d"
  shows "\<exists>w. PStr w \<in> s \<and> (d = w \<or> (\<exists>p. d = p @ ''.'' @ w))"
proof -
  from assms obtain j where j: "2 * j < length (split_on CHR ''.'' d)"
    and w: "PStr (join_with ''.'' (drop j (split_on CHR ''.'' d))) \<in> s"
    unfolding match_whitelist_iff by blast
  from j have "j < length (split_on CHR ''.'' d)" by simp
  from join_drop_split [OF this] w show ?thesis by metis
qed

lemma fqdn_add_all_grows: "fqdn_add_all s ws = (s', e) \<Longrightarrow> s \<subseteq> s'"
  by (induction s ws rule: fqdn_add_all.induct) (auto split: if_splits)

lemma fqdn_add_all_None:
  "fqdn_add_all s ws = (s', None) \<Longrightarrow> s' = s \<union> {v. Val v \<in> set ws}"
  by (induction s ws rule: fqdn_add_all.induct) (auto split: if_splits)

lemma fqdn_add_all_hashable:
  "\<forall>w\<in>set ws. \<exists>v. w = Val v \<and> hashable v \<Longrightarrow>
     fqdn_add_all s ws = (s \<union> {v. Val v \<in> set ws}, None)"
  by (induction s ws rule: fqdn_add_all.induct) auto

lemma fqdn_loop_Inr:
  "fqdn_loop s xs rv = Inr r \<Longrightarrow> r = rv @ filter (fqdn_kept s) xs"
proof (induction xs arbitrary: rv)
  case Nil
  then show ?case by simp
next
  case (Cons x xs)
  from Cons.prems obtain d where d: "getitem x ''observable'' = Inr (PStr d)"
    by (auto split: sum.splits pyval.splits)
  with Cons.prems have "fqdn_loop s xs (if \<not> match_whitelist s d then rv @ [x] else rv) = Inr r"
    by simp
  from Cons.IH [OF this] d show ?case
    by (simp add: fqdn_kept_def)
qed

lemma fqdn_loop_total:
  "\<forall>x\<in>set xs. \<exists>d. getitem x ''observable'' = Inr (PStr d) \<Longrightarrow> \<exists>r. fqdn_loop s xs rv = Inr r"
  by (induction xs arbitrary: rv) auto

lemma fqdn_loop_Inl:
  "x \<in> set xs \<Longrightarrow> \<forall>d. getitem x ''observable'' \<noteq> Inr (PStr d) \<Longrightarrow> \<exists>e. fqdn_loop s xs rv = Inl e"
proof (induction xs arbitrary: rv)
  case Nil
  then show ?case by simp
next
  case (Cons y ys)
  then show ?case
    by (cases "getitem y ''observable''") (auto split: pyval.splits)
qed

section \<open>The trie and \<^verbatim>\<open>Ipv4.process\<close>\<close>

lemma search_best_insert: "search_best (trie_insert p t) k \<longleftrightarrow> prefix p k \<or> search_best t k"
proof (induction p t arbitrary: k rule: trie_insert.induct)
  case 1
  then show ?case by (cases k) simp_all
next
  case (2 m l r)
  then show ?case by (cases k) simp_all
next
  case (3 b bs)
  then show ?case by (cases k) auto
next
  case (4 b bs m l r)
  then show ?case by (cases k) auto
qed

lemma ipv4_perm_loop_Inr:
  "ipv4_perm_loop t xs = Inr t' \<Longrightarrow>
     search_best t' k \<longleftrightarrow> search_best t k \<or> (\<exists>x\<in>set xs. \<exists>p. parse_cidr 0 x = Some p \<and> prefix p k)"
proof (induction xs arbitrary: t)
  case Nil
  then show ?case by simp
next
  case (Cons x xs)
  from Cons.prems obtain p where p: "parse_cidr 0 x = Some p"
    and rest: "ipv4_perm_loop (trie_insert p t) xs = Inr t'"
    by (auto simp: pytricia_setitem_def split: option.splits sum.splits)
  from Cons.IH [OF rest] p show ?case
    by (auto simp: search_best_insert)
qed

lemma ipv4_perm_loop_total:
  "\<forall>x\<in>set xs. parse_cidr 0 x \<noteq> None \<Longrightarrow> \<exists>t'. ipv4_perm_loop t xs = Inr t'"
  by (induction xs arbitrary: t) (auto simp: pytricia_setitem_def)

lemma IPV4_PERM_WHITELIST_parses: "\<forall>x\<in>set IPV4_PERM_WHITELIST. parse_cidr 0 x \<noteq> None"
  by code_simp

lemma ipv4_wl_loop_Inr:
  "ipv4_wl_loop t ys = Inr t' \<Longrightarrow>
     (\<forall>y\<in>set ys. wl_block y \<noteq> None) \<and>
     (search_best t' k \<longleftrightarrow> search_best t k \<or> (\<exists>y\<in>set ys. \<exists>p. wl_block y = Some p \<and> prefix p k))"
proof (induction ys arbitrary: t)
  case Nil
  then show ?case by simp
next
  case (Cons y ys)
  from Cons.prems obtain p where p: "wl_block y = Some p"
    and rest: "ipv4_wl_loop (trie_insert p t) ys = Inr t'"
    by (auto simp: pytricia_setitem_def wl_block_def split: option.splits sum.splits)
  from Cons.IH [OF rest] p show ?case
    by (auto simp: search_best_insert)
qed

lemma ipv4_wl_loop_total:
  "\<forall>y\<in>set ys. wl_block y \<noteq> None \<Longrightarrow> \<exists>t'. ipv4_wl_loop t ys = Inr t'"
  by (induction ys arbitrary: t) (auto simp: pytricia_setitem_def wl_block_def split: sum.splits)

lemma ipv4_loop_Cons:
  "ipv4_loop t (y # ys) rv =
     (case ipv4_step t y of Inl e \<Rightarrow> Inl e | Inr b \<Rightarrow> ipv4_loop t ys (if b then rv @ [y] else rv))"
  by (simp add: ipv4_step_def split: sum.splits bool.splits)

lemma ipv4_loop_Inr:
  "ipv4_loop t ys rv = Inr r \<Longrightarrow>
     (\<forall>y\<in>set ys. \<exists>b. ipv4_step t y = Inr b) \<and> r = rv @ filter (\<lambda>y. ipv4_step t y = Inr True) ys"
proof (induction ys arbitrary: rv)
  case Nil
  then show ?case by simp
next
  case (Cons y ys)
  from Cons.prems obtain b where b: "ipv4_step t y = Inr b"
    and rest: "ipv4_loop t ys (if b then rv @ [y] else rv) = Inr r"
    by (auto simp: ipv4_loop_Cons simp del: ipv4_loop.simps(2) split: sum.splits)
  from Cons.IH [OF rest] b show ?case by auto
qed

lemma ipv4_loop_total:
  "\<forall>y\<in>set ys. \<exists>b. ipv4_step t y = Inr b \<Longrightarrow> \<exists>r. ipv4_loop t ys rv = Inr r"
  by (induction ys arbitrary: rv) (auto simp: ipv4_loop_Cons simp del: ipv4_loop.simps(2))

lemma ipv4_step_defined:
  "ipv4_step t y = Inr b \<Longrightarrow> \<exists>b'. ipv4_step t' y = Inr b'"
  by (auto simp: ipv4_step_def pytricia_contains_def split: sum.splits bool.splits option.splits)

section \<open>Sorting and the aggregation loop\<close>

lemma key_all_Inr:
  "key_all f xs = Inr ks \<Longrightarrow> ks = map (projr \<circ> f) xs \<and> (\<forall>x\<in>set xs. f x = Inr (projr (f x)))"
  by (induction xs arbitrary: ks) (auto split: sum.splits)

lemma key_all_total: "\<forall>x\<in>set xs. \<exists>k. f x = Inr k \<Longrightarrow> \<exists>ks. key_all f xs = Inr ks"
  by (induction xs) auto

lemma insort_key_decorate:
  "insort_key fst (g x, x) (map (\<lambda>d. (g d, d)) ys) = map (\<lambda>d. (g d, d)) (insort_key g x ys)"
  by (induction ys) simp_all

lemma sort_key_decorate:
  "sort_key fst (map (\<lambda>d. (g d, d)) ys) = map (\<lambda>d. (g d, d)) (sort_key g ys)"
  by (induction ys) (simp_all add: insort_key_decorate)

lemma undecorate:
  "map snd (rev (sort_key fst (rev (zip (map g xs) xs)))) = rev (sort_key g (rev xs))"
proof -
  have "zip (map g xs) xs = map (\<lambda>d. (g d, d)) xs"
    by (simp add: zip_map1 zip_same_conv_map)
  then have "rev (zip (map g xs) xs) = map (\<lambda>d. (g d, d)) (rev xs)"
    by (simp add: rev_map)
  then have "sort_key fst (rev (zip (map g xs) xs)) = map (\<lambda>d. (g d, d)) (sort_key g (rev xs))"
    by (simp only: sort_key_decorate)
  then show ?thesis
    by (simp add: rev_map [symmetric] o_def)
qed

lemma py_sorted_reverse_Inr:
  assumes "py_sorted_reverse key data = Inr sd"
  shows "sd = rev (sort_key (projr \<circ> key) (rev data))"
    and "\<forall>d\<in>set data. key d = Inr ((projr \<circ> key) d)"
proof -
  from assms obtain ks where ks: "key_all key data = Inr ks"
    and sd: "sd = map snd (rev (sort_key fst (rev (zip ks data))))"
    by (auto simp: py_sorted_reverse_def split: sum.splits if_splits)
  from key_all_Inr [OF ks] have "ks = map (projr \<circ> key) data"
    and k: "\<forall>d\<in>set data. key d = Inr (projr (key d))"
    by simp_all
  with sd show "sd = rev (sort_key (projr \<circ> key) (rev data))"
    by (simp only: undecorate)
  from k show "\<forall>d\<in>set data. key d = Inr ((projr \<circ> key) d)"
    by simp
qed

lemma sorted_desc_set: "set (rev (sort_key g (rev xs))) = set xs"
  by simp

lemma sorted_desc_sorted: "sorted_wrt (\<lambda>a b. g b \<le> g a) (rev (sort_key g (rev xs)))"
proof -
  have "sorted (map g (sort_key g (rev xs)))"
    by (rule sorted_sort_key)
  then have "sorted_wrt (\<lambda>a b. g a \<le> g b) (sort_key g (rev xs))"
    by (simp add: sorted_map)
  then show ?thesis
    by (simp add: sorted_wrt_rev)
qed

lemma sorted_desc_stable:
  "filter (\<lambda>y. g y = c) (rev (sort_key g (rev xs))) = filter (\<lambda>y. g y = c) xs"
  by (simp add: rev_filter [symmetric] sort_key_stable)

lemma agg_loop_Inr:
  "agg_loop field ds x rv = Inr r \<Longrightarrow>
     r = rv @ agg_kept field x ds \<and> (\<forall>d\<in>set ds. \<exists>v. getitem d field = Inr v)"
proof (induction ds arbitrary: x rv)
  case Nil
  then show ?case by simp
next
  case (Cons d ds)
  from Cons.prems obtain v where v: "getitem d field = Inr v" "hashable v"
    by (auto split: sum.splits if_splits)
  show ?case
  proof (cases "v \<in> x")
    case True
    with v Cons.prems have "agg_loop field ds x rv = Inr r" by simp
    from Cons.IH [OF this] v True show ?thesis by simp
  next
    case False
    with v Cons.prems have "agg_loop field ds (insert v x) (rv @ [d]) = Inr r" by simp
    from Cons.IH [OF this] v False show ?thesis by simp
  qed
qed

lemma agg_loop_total:
  "\<forall>d\<in>set ds. \<exists>v. getitem d field = Inr v \<and> hashable v \<Longrightarrow> \<exists>r. agg_loop field ds x rv = Inr r"
  by (induction ds arbitrary: x rv) auto

lemma agg_kept_subseq: "subseq (agg_kept field x ds) ds"
  by (induction ds arbitrary: x) (auto split: sum.splits)

lemma agg_kept_fresh:
  "y \<in> set (agg_kept field x ds) \<Longrightarrow> \<exists>v. getitem y field = Inr v \<and> v \<notin> x"
proof (induction ds arbitrary: x)
  case Nil
  then show ?case by simp
next
  case (Cons d ds)
  from Cons.prems obtain v where v: "getitem d field = Inr v"
    by (cases "getitem d field") auto
  show ?case
  proof (cases "v \<in> x")
    case True
    with Cons.prems v have "y \<in> set (agg_kept field x ds)" by simp
    then show ?thesis by (rule Cons.IH)
  next
    case False
    with Cons.prems v have "y = d \<or> y \<in> set (agg_kept field (insert v x) ds)" by simp
    then show ?thesis
    proof
      assume "y = d"
      with v False show ?thesis by simp
    next
      assume "y \<in> set (agg_kept field (insert v x) ds)"
      from Cons.IH [OF this] show ?thesis by auto
    qed
  qed
qed

lemma agg_kept_distinct: "distinct (map (\<lambda>d. getitem d field) (agg_kept field x ds))"
proof (induction ds arbitrary: x)
  case Nil
  then show ?case by simp
next
  case (Cons d ds)
  show ?case
  proof (cases "getitem d field")
    case (Inl e)
    then show ?thesis by simp
  next
    case (Inr v)
    have "getitem y field \<noteq> Inr v" if "y \<in> set (agg_kept field (insert v x) ds)" for y
      using agg_kept_fresh [OF that] by auto
    then have "Inr v \<notin> (\<lambda>d. getitem d field) ` set (agg_kept field (insert v x) ds)"
      by (metis (no_types, lifting) imageE)
    with Inr Cons.IH show ?thesis by simp
  qed
qed

lemma agg_kept_first:
  "y \<in> set (agg_kept field x ds) \<Longrightarrow>
     \<exists>pre post. ds = pre @ y # post \<and> (\<forall>d\<in>set pre. getitem d field \<noteq> getitem y field)"
proof (induction ds arbitrary: x)
  case Nil
  then show ?case by simp
next
  case (Cons d ds)
  from Cons.prems obtain v where v: "getitem d field = Inr v"
    by (cases "getitem d field") auto
  show ?case
  proof (cases "y = d \<and> v \<notin> x")
    case True
    then have "d # ds = [] @ y # ds \<and> (\<forall>d\<in>set []. getitem d field \<noteq> getitem y field)"
      by simp
    then show ?thesis by blast
  next
    case False
    with Cons.prems v obtain x' where y: "y \<in> set (agg_kept field x' ds)" and x': "v \<in> x'"
      by (cases "v \<in> x") auto
    from Cons.IH [OF y] obtain pre post where
      ds: "ds = pre @ y # post" and pre: "\<forall>d\<in>set pre. getitem d field \<noteq> getitem y field"
      by blast
    from agg_kept_fresh [OF y] x' v have "getitem d field \<noteq> getitem y field"
      by auto
    with ds pre have "d # ds = (d # pre) @ y # post \<and>
        (\<forall>d\<in>set (d # pre). getitem d field \<noteq> getitem y field)"
      by simp
    then show ?thesis by blast
  qed
qed

lemma agg_kept_covers:
  "\<forall>d\<in>set ds. \<exists>v. getitem d field = Inr v \<Longrightarrow> d \<in> set ds \<Longrightarrow> getitem d field = Inr v \<Longrightarrow>
     v \<in> x \<or> (\<exists>r\<in>set (agg_kept field x ds). getitem r field = Inr v)"
proof (induction ds arbitrary: x)
  case Nil
  then show ?case by simp
next
  case (Cons a ds)
  from Cons.prems obtain u where u: "getitem a field = Inr u" by auto
  show ?case
  proof (cases "d = a")
    case True
    with u Cons.prems show ?thesis by auto
  next
    case False
    with Cons.prems have d: "d \<in> set ds" and all: "\<forall>d\<in>set ds. \<exists>v. getitem d field = Inr v"
      by auto
    show ?thesis
    proof (cases "u \<in> x")
      case True
      with Cons.IH [OF all d Cons.prems(3), of x] u show ?thesis by auto
    next
      case False
      with Cons.IH [OF all d Cons.prems(3), of "insert u x"] u show ?thesis by auto
    qed
  qed
qed

lemma subseq_set: "subseq xs ys \<Longrightarrow> set xs \<subseteq> set ys"
  by (auto elim: list_emb_set)

lemma subseq_sorted_wrt: "subseq xs ys \<Longrightarrow> sorted_wrt R ys \<Longrightarrow> sorted_wrt R xs"
proof (induction rule: list_emb.induct)
  case (list_emb_Nil ys)
  then show ?case by simp
next
  case (list_emb_Cons xs ys y)
  then show ?case by simp
next
  case (list_emb_Cons2 x y xs ys)
  then have "set xs \<subseteq> set ys" by (intro subseq_set)
  with list_emb_Cons2 show ?case by auto
qed

lemma filter_eq_append_ConsD:
  "filter Q ys = as @ r # bs \<Longrightarrow> \<exists>pre post. ys = pre @ r # post \<and> filter Q pre = as"
proof (induction ys arbitrary: as)
  case Nil
  then show ?case by simp
next
  case (Cons y ys)
  show ?case
  proof (cases "Q y")
    case False
    with Cons.prems have "filter Q ys = as @ r # bs" by simp
    from Cons.IH [OF this] obtain pre post where "ys = pre @ r # post" "filter Q pre = as"
      by blast
    with False have "y # ys = (y # pre) @ r # post \<and> filter Q (y # pre) = as" by simp
    then show ?thesis by blast
  next
    case True
    show ?thesis
    proof (cases as)
      case Nil
      with True Cons.prems have "y # ys = [] @ r # ys \<and> filter Q [] = as" by simp
      then show ?thesis by blast
    next
      case (Cons a as')
      with True Cons.prems have a: "a = y" and "filter Q ys = as' @ r # bs" by simp_all
      from Cons.IH [OF this(2)] obtain pre post where "ys = pre @ r # post" "filter Q pre = as'"
        by blast
      with True a Cons have "y # ys = (y # pre) @ r # post \<and> filter Q (y # pre) = as" by simp
      then show ?thesis by blast
    qed
  qed
qed

lemma find_first:
  "\<forall>d\<in>set pre. \<not> P d \<Longrightarrow> P r \<Longrightarrow> List.find P (pre @ r # post) = Some r"
  by (induction pre) simp_all

lemma aggregate_Inr:
  assumes "aggregate data field sort_by = Inr rv"
  defines "g \<equiv> projr \<circ> (\<lambda>x. getitem x sort_by)"
  defines "sd \<equiv> rev (sort_key g (rev data))"
  shows "rv = agg_kept field {} sd"
    and "\<forall>d\<in>set data. getitem d sort_by = Inr (g d)"
    and "\<forall>d\<in>set data. \<exists>v. getitem d field = Inr v"
proof -
  from assms(1) obtain sd' where s: "py_sorted_reverse (\<lambda>x. getitem x sort_by) data = Inr sd'"
    and l: "agg_loop field sd' {} [] = Inr rv"
    by (auto simp: aggregate_def split: sum.splits)
  from py_sorted_reverse_Inr [OF s] have sd': "sd' = sd"
    and k: "\<forall>d\<in>set data. getitem d sort_by = Inr (g d)"
    by (simp_all add: g_def sd_def)
  from agg_loop_Inr [OF l] sd' show "rv = agg_kept field {} sd" by simp
  from k show "\<forall>d\<in>set data. getitem d sort_by = Inr (g d)" .
  from agg_loop_Inr [OF l] sd' have "\<forall>d\<in>set sd. \<exists>v. getitem d field = Inr v" by simp
  then show "\<forall>d\<in>set data. \<exists>v. getitem d field = Inr v" by (simp add: sd_def)
qed

lemma aggregate_total:
  assumes "sortable sort_by data" and "keyed field data"
  shows "\<exists>rv. aggregate data field sort_by = Inr rv"
proof -
  have "\<exists>k. getitem x sort_by = Inr k" if "x \<in> set data" for x
  proof -
    from assms(1) that
    have "case (getitem x sort_by, getitem x sort_by) of (Inr u, Inr v) \<Rightarrow> same_type u v | _ \<Rightarrow> False"
      unfolding sortable_def by blast
    then show ?thesis by (cases "getitem x sort_by") auto
  qed
  then have "\<forall>x\<in>set data. \<exists>k. getitem x sort_by = Inr k" by blast
  from key_all_total [OF this] obtain ks where ks: "key_all (\<lambda>x. getitem x sort_by) data = Inr ks"
    by blast
  from key_all_Inr [OF ks] have eq: "ks = map (projr \<circ> (\<lambda>x. getitem x sort_by)) data"
    and k: "\<forall>d\<in>set data. getitem d sort_by = Inr (projr (getitem d sort_by))"
    by simp_all
  have "same_type a b" if "a \<in> set ks" "b \<in> set ks" for a b
  proof -
    from that eq obtain x y where x: "x \<in> set data" "a = projr (getitem x sort_by)"
      and y: "y \<in> set data" "b = projr (getitem y sort_by)"
      by auto
    from assms(1) x(1) y(1)
    have "case (getitem x sort_by, getitem y sort_by) of (Inr u, Inr v) \<Rightarrow> same_type u v | _ \<Rightarrow> False"
      unfolding sortable_def by blast
    with x y show ?thesis by (auto split: sum.splits)
  qed
  then have "list_all (\<lambda>a. list_all (same_type a) ks) ks"
    by (simp add: list_all_iff)
  with ks obtain sd where sd: "py_sorted_reverse (\<lambda>x. getitem x sort_by) data = Inr sd"
    by (simp add: py_sorted_reverse_def)
  from py_sorted_reverse_Inr(1) [OF sd] have set: "set sd = set data"
    by simp
  have "\<exists>v. getitem d field = Inr v \<and> hashable v" if "d \<in> set sd" for d
  proof -
    from assms(2) that set
    have "case getitem d field of Inr v \<Rightarrow> hashable v | Inl e \<Rightarrow> False"
      unfolding keyed_def by blast
    then show ?thesis by (cases "getitem d field") auto
  qed
  then have "\<forall>d\<in>set sd. \<exists>v. getitem d field = Inr v \<and> hashable v" by blast
  from agg_loop_total [OF this] obtain r where "agg_loop field sd {} [] = Inr r" by blast
  with sd show ?thesis by (simp add: aggregate_def)
qed

lemma aggregate_props:
  assumes agg: "aggregate data field sort_by = Inr rv"
  shows "distinct (map (\<lambda>d. getitem d field) rv)" (is ?distinct)
    and "\<forall>r\<in>set rv. r \<in> set data \<and>
           (\<forall>d\<in>set data. getitem d field = getitem r field \<longrightarrow> field_le sort_by d r)" (is ?max)
    and "\<forall>r\<in>set rv. List.find (\<lambda>d. getitem d field = getitem r field \<and>
           getitem d sort_by = getitem r sort_by) data = Some r" (is ?first)
    and "\<forall>d\<in>set data. \<exists>r\<in>set rv. getitem r field = getitem d field" (is ?covers)
    and "sorted_wrt (\<lambda>a b. field_le sort_by b a) rv" (is ?sorted)
    and "\<forall>c. subseq (filter (\<lambda>d. getitem d sort_by = c) rv)
           (filter (\<lambda>d. getitem d sort_by = c) data)" (is ?stable)
proof -
  define g where "g = projr \<circ> (\<lambda>x. getitem x sort_by)"
  define sd where "sd = rev (sort_key g (rev data))"
  from aggregate_Inr [OF agg] have rv: "rv = agg_kept field {} sd"
    and k: "\<forall>d\<in>set data. getitem d sort_by = Inr (g d)"
    and f: "\<forall>d\<in>set data. \<exists>v. getitem d field = Inr v"
    by (simp_all add: g_def sd_def)
  have set_sd: "set sd = set data" by (simp add: sd_def)
  have sorted_sd: "sorted_wrt (\<lambda>a b. g b \<le> g a) sd"
    unfolding sd_def by (rule sorted_desc_sorted)
  have stable_sd: "filter (\<lambda>y. g y = c) sd = filter (\<lambda>y. g y = c) data" for c
    unfolding sd_def by (rule sorted_desc_stable)
  have sub: "subseq rv sd" unfolding rv by (rule agg_kept_subseq)
  have le: "field_le sort_by a b \<longleftrightarrow> g a \<le> g b" if "a \<in> set data" "b \<in> set data" for a b
    using that k by (simp add: field_le_def)
  have rv_data: "set rv \<subseteq> set data"
    using subseq_set [OF sub] set_sd by simp

  show ?distinct unfolding rv by (rule agg_kept_distinct)

  have split: "\<exists>pre post. sd = pre @ r # post \<and> (\<forall>d\<in>set pre. getitem d field \<noteq> getitem r field)"
    if "r \<in> set rv" for r
    using that unfolding rv by (rule agg_kept_first)

  show ?max
  proof (intro ballI conjI impI)
    fix r assume r: "r \<in> set rv"
    with rv_data show rd: "r \<in> set data" by blast
    fix d assume d: "d \<in> set data" and same: "getitem d field = getitem r field"
    from split [OF r] obtain pre post where sd_eq: "sd = pre @ r # post"
      and pre: "\<forall>d\<in>set pre. getitem d field \<noteq> getitem r field"
      by blast
    from d set_sd sd_eq same pre have "d = r \<or> d \<in> set post" by auto
    moreover from sorted_sd sd_eq have "\<forall>b\<in>set post. g b \<le> g r"
      by (simp add: sorted_wrt_append)
    ultimately have "g d \<le> g r" by auto
    with le [OF d rd] show "field_le sort_by d r" by simp
  qed

  show ?first
  proof
    fix r assume r: "r \<in> set rv"
    with rv_data have rd: "r \<in> set data" by blast
    let ?Q = "\<lambda>y. g y = g r"
    from split [OF r] obtain pre post where sd_eq: "sd = pre @ r # post"
      and pre: "\<forall>d\<in>set pre. getitem d field \<noteq> getitem r field"
      by blast
    have "filter ?Q data = filter ?Q pre @ r # filter ?Q post"
      using stable_sd [of "g r"] sd_eq by simp
    from filter_eq_append_ConsD [OF this] obtain us vs where data: "data = us @ r # vs"
      and us: "filter ?Q us = filter ?Q pre"
      by blast
    have no: "\<not> (getitem d field = getitem r field \<and> getitem d sort_by = getitem r sort_by)"
      if d: "d \<in> set us" for d
    proof (cases "?Q d")
      case True
      with d have "d \<in> set (filter ?Q us)" by simp
      with us have "d \<in> set pre" by auto
      with pre show ?thesis by blast
    next
      case False
      from d data have "d \<in> set data" by auto
      with k rd False show ?thesis by auto
    qed
    have "List.find (\<lambda>d. getitem d field = getitem r field \<and> getitem d sort_by = getitem r sort_by)
        (us @ r # vs) = Some r"
      by (rule find_first) (use no in auto)
    with data show "List.find (\<lambda>d. getitem d field = getitem r field \<and>
        getitem d sort_by = getitem r sort_by) data = Some r"
      by simp
  qed

  show ?covers
  proof
    fix d assume d: "d \<in> set data"
    with f obtain v where v: "getitem d field = Inr v" by blast
    from f set_sd have all: "\<forall>d\<in>set sd. \<exists>v. getitem d field = Inr v" by simp
    from d set_sd have "d \<in> set sd" by simp
    from agg_kept_covers [OF all this v, of "{}"] v rv
    show "\<exists>r\<in>set rv. getitem r field = getitem d field" by simp
  qed

  have "sorted_wrt (\<lambda>a b. g b \<le> g a) rv"
    using sub sorted_sd by (rule subseq_sorted_wrt)
  then show ?sorted
    by (rule sorted_wrt_mono_rel [rotated]) (use rv_data le in blast)

  show ?stable
  proof
    fix c
    show "subseq (filter (\<lambda>d. getitem d sort_by = c) rv) (filter (\<lambda>d. getitem d sort_by = c) data)"
    proof (cases c)
      case (Inl e)
      with k rv_data have "filter (\<lambda>d. getitem d sort_by = c) rv = []"
        by (auto simp: filter_empty_conv)
      then show ?thesis by simp
    next
      case (Inr v)
      have "filter (\<lambda>d. getitem d sort_by = c) rv = filter (\<lambda>y. g y = v) rv"
        by (rule filter_cong) (use k rv_data Inr in auto)
      moreover have "filter (\<lambda>d. getitem d sort_by = c) data = filter (\<lambda>y. g y = v) data"
        by (rule filter_cong) (use k Inr in auto)
      moreover have "subseq (filter (\<lambda>y. g y = v) rv) (filter (\<lambda>y. g y = v) sd)"
        using sub by (rule subseq_filter)
      ultimately show ?thesis by (simp add: stable_sd)
    qed
  qed
qed

section \<open>\<^verbatim>\<open>Fqdn.process\<close> as a whole\<close>

lemma fqdn_add_all_None_hashable:
  "fqdn_add_all s ws = (s', None) \<Longrightarrow> \<forall>w\<in>set ws. \<exists>v. w = Val v \<and> hashable v"
  by (induction s ws rule: fqdn_add_all.induct) (auto split: if_splits)

lemma fqdn_loop_Inr_strings:
  "fqdn_loop s xs rv = Inr r \<Longrightarrow> \<forall>x\<in>set xs. \<exists>d. getitem x ''observable'' = Inr (PStr d)"
proof (rule ccontr)
  assume r: "fqdn_loop s xs rv = Inr r"
  assume "\<not> (\<forall>x\<in>set xs. \<exists>d. getitem x ''observable'' = Inr (PStr d))"
  then obtain x where "x \<in> set xs" "\<forall>d. getitem x ''observable'' \<noteq> Inr (PStr d)" by blast
  from fqdn_loop_Inl [OF this, of s rv] r show False by auto
qed

lemma fqdn_process_Inr:
  assumes "fqdn_process self data ws = (self', Inr rv)"
  shows "wl self' = wl self \<union> {v. Val v \<in> set ws}"
    and "\<forall>w\<in>set ws. \<exists>v. w = Val v \<and> hashable v"
    and "rv = filter (fqdn_kept (wl self')) data"
    and "\<forall>x\<in>set data. \<exists>d. getitem x ''observable'' = Inr (PStr d)"
proof -
  obtain s e where a: "fqdn_add_all (wl self) ws = (s, e)" by (cases "fqdn_add_all (wl self) ws")
  with assms have e: "e = None" and self': "self' = self\<lparr>wl := s\<rparr>"
    and l: "fqdn_loop s data [] = Inr rv"
    by (auto simp: fqdn_process_def split: option.splits)
  from a e have a': "fqdn_add_all (wl self) ws = (s, None)" by simp
  from fqdn_add_all_None [OF a'] self' show "wl self' = wl self \<union> {v. Val v \<in> set ws}" by simp
  from fqdn_add_all_None_hashable [OF a'] show "\<forall>w\<in>set ws. \<exists>v. w = Val v \<and> hashable v" .
  from fqdn_loop_Inr [OF l] self' show "rv = filter (fqdn_kept (wl self')) data" by simp
  from fqdn_loop_Inr_strings [OF l] show "\<forall>x\<in>set data. \<exists>d. getitem x ''observable'' = Inr (PStr d)" .
qed

lemma fqdn_process_total:
  assumes "\<forall>w\<in>set ws. \<exists>v. w = Val v \<and> hashable v"
    and "\<forall>x\<in>set data. \<exists>d. getitem x ''observable'' = Inr (PStr d)"
  shows "\<exists>rv. fqdn_process self data ws = (self\<lparr>wl := wl self \<union> {v. Val v \<in> set ws}\<rparr>, Inr rv)"
proof -
  from fqdn_loop_total [OF assms(2)] obtain r
    where "fqdn_loop (wl self \<union> {v. Val v \<in> set ws}) data [] = Inr r" by blast
  with fqdn_add_all_hashable [OF assms(1), of "wl self"] show ?thesis
    by (simp add: fqdn_process_def)
qed

lemma fqdn_process_state:
  assumes "\<forall>w\<in>set ws. \<exists>v. w = Val v \<and> hashable v"
  shows "wl (fst (fqdn_process self data ws)) = wl self \<union> {v. Val v \<in> set ws}"
  using fqdn_add_all_hashable [OF assms, of "wl self"] by (simp add: fqdn_process_def)

lemma fqdn_kept_antimono:
  "s \<subseteq> s' \<Longrightarrow> fqdn_kept s' x \<Longrightarrow> fqdn_kept s x"
  unfolding fqdn_kept_def using match_whitelist_mono by blast

lemma fqdn_monotone:
  assumes sub: "set V \<subseteq> set V'" and big: "fqdn_process self data V' = (s2, Inr fv')"
  shows "\<exists>s1 fv. fqdn_process self data V = (s1, Inr fv) \<and> (\<forall>x\<in>set data. x \<notin> set fv \<longrightarrow> x \<notin> set fv')"
proof -
  note b = fqdn_process_Inr [OF big]
  from b(2) sub have h: "\<forall>w\<in>set V. \<exists>v. w = Val v \<and> hashable v" by blast
  from fqdn_process_total [OF h b(4)] obtain fv
    where small: "fqdn_process self data V = (self\<lparr>wl := wl self \<union> {v. Val v \<in> set V}\<rparr>, Inr fv)"
    by blast
  note s = fqdn_process_Inr [OF small]
  from s(1) b(1) sub have "wl (self\<lparr>wl := wl self \<union> {v. Val v \<in> set V}\<rparr>) \<subseteq> wl s2" by auto
  then have "fqdn_kept (wl s2) x \<Longrightarrow> fqdn_kept (wl (self\<lparr>wl := wl self \<union> {v. Val v \<in> set V}\<rparr>)) x" for x
    by (rule fqdn_kept_antimono)
  with s(3) b(3) have "\<forall>x\<in>set data. x \<notin> set fv \<longrightarrow> x \<notin> set fv'" by auto
  with small show ?thesis by blast
qed

lemma fold_insert_PStr: "fold (\<lambda>w s. insert (PStr w) s) xs A = PStr ` set xs \<union> A"
  by (induction xs arbitrary: A) auto

lemma wl_fqdn_init: "wl fqdn_init = PStr ` set FQDN_PERM_WHITELIST"
  by (simp add: fqdn_init_def fold_insert_PStr)

lemma fqdn_perm_in_effect:
  assumes "fqdn_process fqdn_init data ws = (self', Inr rv)"
    and "x \<in> set data" and "getitem x ''observable'' = Inr (PStr d)"
    and "match_whitelist (PStr ` set FQDN_PERM_WHITELIST) d"
  shows "x \<notin> set rv"
proof -
  note p = fqdn_process_Inr [OF assms(1)]
  from wl_fqdn_init p(1) have "PStr ` set FQDN_PERM_WHITELIST \<subseteq> wl self'" by simp
  from match_whitelist_mono [OF this assms(4)] assms(3) have "\<not> fqdn_kept (wl self') x"
    by (simp add: fqdn_kept_def)
  with p(3) show ?thesis by simp
qed

section \<open>\<^verbatim>\<open>Ipv4.process\<close> as a whole\<close>

lemma ipv4_process_Inr:
  assumes "ipv4_process data W = Inr rv"
  shows "\<exists>t. ipv4_loop t data [] = Inr rv \<and> (\<forall>y\<in>set W. wl_block y \<noteq> None) \<and>
    (\<forall>k. search_best t k \<longleftrightarrow>
       (\<exists>x\<in>set IPV4_PERM_WHITELIST. \<exists>p. parse_cidr 0 x = Some p \<and> prefix p k) \<or>
       (\<exists>y\<in>set W. \<exists>p. wl_block y = Some p \<and> prefix p k))"
proof -
  from assms obtain t0 t where p: "ipv4_perm_loop Leaf IPV4_PERM_WHITELIST = Inr t0"
    and w: "ipv4_wl_loop t0 W = Inr t" and l: "ipv4_loop t data [] = Inr rv"
    by (auto simp: ipv4_process_def split: sum.splits)
  have "search_best t k \<longleftrightarrow>
       (\<exists>x\<in>set IPV4_PERM_WHITELIST. \<exists>p. parse_cidr 0 x = Some p \<and> prefix p k) \<or>
       (\<exists>y\<in>set W. \<exists>p. wl_block y = Some p \<and> prefix p k)" for k
    using ipv4_perm_loop_Inr [OF p, of k] ipv4_wl_loop_Inr [OF w, of k] by simp
  with l ipv4_wl_loop_Inr [OF w] show ?thesis by blast
qed

lemma ipv4_process_total:
  assumes "\<forall>y\<in>set W. wl_block y \<noteq> None" and "\<forall>y\<in>set data. \<exists>b. ipv4_step t' y = Inr b"
  shows "\<exists>rv. ipv4_process data W = Inr rv"
proof -
  from ipv4_perm_loop_total [OF IPV4_PERM_WHITELIST_parses] obtain t0
    where p: "ipv4_perm_loop Leaf IPV4_PERM_WHITELIST = Inr t0" by blast
  from ipv4_wl_loop_total [OF assms(1)] obtain t where w: "ipv4_wl_loop t0 W = Inr t" by blast
  from assms(2) have "\<forall>y\<in>set data. \<exists>b. ipv4_step t y = Inr b"
    using ipv4_step_defined by blast
  from ipv4_loop_total [OF this] obtain r where "ipv4_loop t data [] = Inr r" by blast
  with p w show ?thesis by (simp add: ipv4_process_def)
qed

lemma ipv4_step_mono:
  assumes "\<And>k. search_best t k \<Longrightarrow> search_best t' k"
    and "ipv4_step t y = Inr False"
  shows "ipv4_step t' y = Inr False"
  using assms(2) assms(1)
  by (auto simp: ipv4_step_def pytricia_contains_def split: sum.splits bool.splits option.splits)

lemma ipv4_monotone:
  assumes sub: "set W \<subseteq> set W'" and big: "ipv4_process data W' = Inr rv'"
  shows "\<exists>rv. ipv4_process data W = Inr rv \<and> (\<forall>x\<in>set data. x \<notin> set rv \<longrightarrow> x \<notin> set rv')"
proof -
  from ipv4_process_Inr [OF big] obtain t' where l': "ipv4_loop t' data [] = Inr rv'"
    and ok': "\<forall>y\<in>set W'. wl_block y \<noteq> None"
    and t': "\<And>k. search_best t' k \<longleftrightarrow>
       (\<exists>x\<in>set IPV4_PERM_WHITELIST. \<exists>p. parse_cidr 0 x = Some p \<and> prefix p k) \<or>
       (\<exists>y\<in>set W'. \<exists>p. wl_block y = Some p \<and> prefix p k)"
    by blast
  from ok' sub have ok: "\<forall>y\<in>set W. wl_block y \<noteq> None" by blast
  from ipv4_loop_Inr [OF l'] have steps': "\<forall>y\<in>set data. \<exists>b. ipv4_step t' y = Inr b"
    and rv': "rv' = filter (\<lambda>y. ipv4_step t' y = Inr True) data" by simp_all
  from ipv4_process_total [OF ok steps'] obtain rv where small: "ipv4_process data W = Inr rv"
    by blast
  from ipv4_process_Inr [OF small] obtain t where l: "ipv4_loop t data [] = Inr rv"
    and t: "\<And>k. search_best t k \<longleftrightarrow>
       (\<exists>x\<in>set IPV4_PERM_WHITELIST. \<exists>p. parse_cidr 0 x = Some p \<and> prefix p k) \<or>
       (\<exists>y\<in>set W. \<exists>p. wl_block y = Some p \<and> prefix p k)"
    by blast
  from ipv4_loop_Inr [OF l] have steps: "\<forall>y\<in>set data. \<exists>b. ipv4_step t y = Inr b"
    and rv: "rv = filter (\<lambda>y. ipv4_step t y = Inr True) data" by simp_all
  have mono: "search_best t k \<Longrightarrow> search_best t' k" for k
    unfolding t t' using sub by blast
  have "x \<notin> set rv'" if x: "x \<in> set data" "x \<notin> set rv" for x
  proof -
    from x rv steps have "ipv4_step t x = Inr False" by auto
    from ipv4_step_mono [OF mono this] have "ipv4_step t' x = Inr False" .
    with rv' show ?thesis by simp
  qed
  with small show ?thesis by blast
qed

lemma ipv4_process_drops_tagged:
  assumes "ipv4_process data W = Inr rv" and "y \<in> set data"
    and "getitem y ''tags'' = Inr tg" and "tag_contains_whitelist tg = Inr True"
  shows "y \<notin> set rv"
proof -
  from ipv4_process_Inr [OF assms(1)] obtain t where l: "ipv4_loop t data [] = Inr rv" by blast
  from assms(3,4) have "ipv4_step t y = Inr False" by (simp add: ipv4_step_def)
  with ipv4_loop_Inr [OF l] show ?thesis by simp
qed

lemma ipv4_perm_in_effect:
  assumes "ipv4_process data W = Inr rv" and "y \<in> set data"
    and "getitem y ''observable'' = Inr v" and "parse_cidr 32 (py_str v) = Some k"
    and "x \<in> set IPV4_PERM_WHITELIST" and "parse_cidr 0 x = Some p" and "prefix p k"
  shows "y \<notin> set rv"
proof -
  from ipv4_process_Inr [OF assms(1)] obtain t where l: "ipv4_loop t data [] = Inr rv"
    and t: "\<And>k. search_best t k \<longleftrightarrow>
       (\<exists>x\<in>set IPV4_PERM_WHITELIST. \<exists>p. parse_cidr 0 x = Some p \<and> prefix p k) \<or>
       (\<exists>y\<in>set W. \<exists>p. wl_block y = Some p \<and> prefix p k)"
    by blast
  from assms(5-7) have "search_best t k" unfolding t by blast
  with assms(3,4) have "ipv4_step t y \<noteq> Inr True"
    by (auto simp: ipv4_step_def pytricia_contains_def split: sum.splits bool.splits)
  with ipv4_loop_Inr [OF l] show ?thesis by simp
qed

section \<open>Bare addresses, missing fields and unknown types\<close>

lemma split_on_no_sep: "c \<notin> set s \<Longrightarrow> split_on c s = [s]"
  by (induction s) auto

lemma split_on_append_sep: "c \<notin> set s \<Longrightarrow> split_on c (s @ c # t) = s # split_on c t"
  by (induction s) auto

lemma parse_octet_length: "parse_octet s = Some bs \<Longrightarrow> length bs = 8"
  by (auto simp: parse_octet_def octet_bits_def split: option.splits if_splits)

lemma parse_addr_length:
  assumes "parse_addr s = Some a"
  shows "length a = 32"
proof -
  from assms obtain o1 o2 o3 o4 where
    m: "map parse_octet (split_on CHR ''.'' s) = [Some o1, Some o2, Some o3, Some o4]"
    and a: "a = o1 @ o2 @ o3 @ o4"
    by (auto simp: parse_addr_def split: list.splits option.splits)
  from m obtain s1 s2 s3 s4 where "parse_octet s1 = Some o1" "parse_octet s2 = Some o2"
    "parse_octet s3 = Some o3" "parse_octet s4 = Some o4"
    by (auto simp: map_eq_Cons_conv)
  with a show ?thesis by (simp add: parse_octet_length)
qed


lemma parse_dec_32: "parse_dec ''32'' = Some 32"
  by (simp add: parse_dec_def dec_value_def is_digit_def)

lemma parse_cidr_bare:
  assumes "CHR ''/'' \<notin> set s" and "parse_addr s = Some a"
  shows "parse_cidr b (s @ ''/32'') = Some a" and "parse_cidr b s = Some (take b a)"
proof -
  from assms(1) have "split_on CHR ''/'' (s @ ''/32'') = [s, ''32'']"
    by (simp add: split_on_append_sep)
  with assms(2) parse_addr_length [OF assms(2)] show "parse_cidr b (s @ ''/32'') = Some a"
    by (simp add: parse_cidr_def parse_dec_32)
  from assms show "parse_cidr b s = Some (take b a)"
    by (simp add: parse_cidr_def split_on_no_sep)
qed


text \<open>
  Without the suffix the trie would receive the empty block of a bare key, and that block
  contains every key.
\<close>

lemma pytricia_setitem_bare:
  assumes "CHR ''/'' \<notin> set s" and "parse_addr s = Some a"
  shows "pytricia_setitem t s = Inr (trie_insert [] t)" and "search_best (trie_insert [] t) k"
  using parse_cidr_bare(2) [OF assms, of 0]
  by (simp_all add: pytricia_setitem_def search_best_insert)


lemma factory_None: "otype \<notin> {''ipv4'', ''ipv6'', ''fqdn'', ''url''} \<Longrightarrow> factory otype = None"
  by (simp add: factory_def plugins_def)

lemma fqdn_loop_first_missing:
  assumes "\<forall>y\<in>set pre. \<exists>d. getitem y ''observable'' = Inr (PStr d)"
    and "map_of x ''observable'' = None"
  shows "fqdn_loop s (pre @ x # post) rv = Inl (KeyError ''observable'')"
  using assms by (induction pre arbitrary: rv) (auto simp: getitem_def)

lemma ipv4_loop_Inl:
  assumes "x \<in> set ys" and "ipv4_step t x = Inl e"
  shows "\<exists>e'. ipv4_loop t ys rv = Inl e'"
proof (cases "ipv4_loop t ys rv")
  case (Inl e')
  then show ?thesis by blast
next
  case (Inr r)
  from ipv4_loop_Inr [OF Inr] assms show ?thesis by auto
qed

lemma ipv4_step_missing:
  assumes "map_of x ''observable'' = None"
    and "\<not> (\<exists>tg. getitem x ''tags'' = Inr tg \<and> tag_contains_whitelist tg = Inr True)"
  shows "\<exists>e. ipv4_step t x = Inl e"
  using assms by (auto simp: ipv4_step_def getitem_def split: sum.splits bool.splits option.splits)

section \<open>The claims\<close>

text \<open>
  Claim C1: whenever \<^verbatim>\<open>aggregate\<close> returns, its result has at most one record for each
  value of the key field (and one for every value that occurs); the record kept for a key
  is an input record whose rank is maximal among the input records with that key, and the
  earliest input record with that key and that rank; the result is in descending order of
  the rank field, and records of equal rank keep their input order. It returns on every
  list whose records all have the rank field with values of one type and the key field
  with a hashable value; a missing field raises \<^verbatim>\<open>KeyError\<close>.
\<close>

theorem aggregate_dedup:
  "(sortable sort_by data \<and> keyed field data \<longrightarrow> (\<exists>rv. aggregate data field sort_by = Inr rv)) \<and>
   (\<forall>rv. aggregate data field sort_by = Inr rv \<longrightarrow>
      distinct (map (\<lambda>d. getitem d field) rv) \<and>
      (\<forall>r\<in>set rv. r \<in> set data \<and>
         (\<forall>d\<in>set data. getitem d field = getitem r field \<longrightarrow> field_le sort_by d r)) \<and>
      (\<forall>r\<in>set rv. List.find (\<lambda>d. getitem d field = getitem r field \<and>
         getitem d sort_by = getitem r sort_by) data = Some r) \<and>
      (\<forall>d\<in>set data. \<exists>r\<in>set rv. getitem r field = getitem d field) \<and>
      sorted_wrt (\<lambda>a b. field_le sort_by b a) rv \<and>
      (\<forall>c. subseq (filter (\<lambda>d. getitem d sort_by = c) rv)
         (filter (\<lambda>d. getitem d sort_by = c) data)))"
proof (intro conjI allI impI)
  assume "sortable sort_by data \<and> keyed field data"
  then show "\<exists>rv. aggregate data field sort_by = Inr rv"
    using aggregate_total by blast
next
  fix rv assume a: "aggregate data field sort_by = Inr rv"
  show "distinct (map (\<lambda>d. getitem d field) rv)"
    by (rule aggregate_props(1) [OF a])
  show "\<forall>r\<in>set rv. r \<in> set data \<and>
         (\<forall>d\<in>set data. getitem d field = getitem r field \<longrightarrow> field_le sort_by d r)"
    by (rule aggregate_props(2) [OF a])
  show "\<forall>r\<in>set rv. List.find (\<lambda>d. getitem d field = getitem r field \<and>
         getitem d sort_by = getitem r sort_by) data = Some r"
    by (rule aggregate_props(3) [OF a])
  show "\<forall>d\<in>set data. \<exists>r\<in>set rv. getitem r field = getitem d field"
    by (rule aggregate_props(4) [OF a])
  show "sorted_wrt (\<lambda>a b. field_le sort_by b a) rv"
    by (rule aggregate_props(5) [OF a])
  fix c
  show "subseq (filter (\<lambda>d. getitem d sort_by = c) rv) (filter (\<lambda>d. getitem d sort_by = c) data)"
    using aggregate_props(6) [OF a] by blast
qed

text \<open>
  Claim C1 on four records: the two records for \<^verbatim>\<open>1.2.3.4\<close> with confidence 85 tie and the
  first of them is kept, the one with confidence 40 is dropped, and \<^verbatim>\<open>10.1.1.1\<close> with
  confidence 90 comes first.
\<close>

theorem aggregate_dedup_witness:
  "sortable ''confidence'' sample_records \<and> keyed ''observable'' sample_records \<and>
   aggregate sample_records ''observable'' ''confidence'' =
     Inr [[(''observable'', PStr ''10.1.1.1''), (''confidence'', PInt 90), (''provider'', PStr ''a'')],
          [(''observable'', PStr ''1.2.3.4''), (''confidence'', PInt 85), (''provider'', PStr ''a'')]] \<and>
   distinct (map (\<lambda>d. getitem d ''observable'')
     [[(''observable'', PStr ''10.1.1.1''), (''confidence'', PInt 90), (''provider'', PStr ''a'')],
      [(''observable'', PStr ''1.2.3.4''), (''confidence'', PInt 85), (''provider'', PStr ''a'')]]) \<and>
   sorted_wrt (\<lambda>a b. field_le ''confidence'' b a)
     [[(''observable'', PStr ''10.1.1.1''), (''confidence'', PInt 90), (''provider'', PStr ''a'')],
      [(''observable'', PStr ''1.2.3.4''), (''confidence'', PInt 85), (''provider'', PStr ''a'')]]"
proof -
  have s: "sortable ''confidence'' sample_records" by code_simp
  have k: "keyed ''observable'' sample_records" by code_simp
  have a: "aggregate sample_records ''observable'' ''confidence'' =
     Inr [[(''observable'', PStr ''10.1.1.1''), (''confidence'', PInt 90), (''provider'', PStr ''a'')],
          [(''observable'', PStr ''1.2.3.4''), (''confidence'', PInt 85), (''provider'', PStr ''a'')]]"
    by code_simp
  from aggregate_dedup [of "''confidence''" sample_records "''observable''"] s k a
  show ?thesis by blast
qed

text \<open>
  Claim C2: for every observable type, a record whose tags contain \<^verbatim>\<open>whitelist\<close> is excluded
  from the feed, whatever the matcher says. \<^verbatim>\<open>Ipv4.process\<close> tests the tags
  (\<open>ipv4_process_drops_tagged\<close> above); \<^verbatim>\<open>Fqdn.process\<close> never reads them. On a fresh
  instance and an empty dynamic whitelist, the tagged record \<^verbatim>\<open>example.com\<close>, which no
  whitelist entry matches, is returned in the feed.
\<close>

theorem fqdn_process_keeps_tagged_record:
  "fqdn_process fqdn_init
     [[(''observable'', PStr ''example.com''), (''tags'', PList [''whitelist''])]] [] =
   (fqdn_init, Inr [[(''observable'', PStr ''example.com''), (''tags'', PList [''whitelist''])]])"
  by (simp add: fqdn_process_def getitem_def match_whitelist_def mw_loop.simps fqdn_init_def
      FQDN_PERM_WHITELIST_def)

text \<open>
  Claim C3: with an empty dynamic whitelist, every record whose observable matches the
  permanent whitelist of its type is excluded, for instance an FQDN record that is
  \<^verbatim>\<open>google.com\<close> or a subdomain of it. The permanent entries are always in the set that is
  consulted (\<open>fqdn_perm_in_effect\<close>, \<open>ipv4_perm_in_effect\<close> above), but the suffix
  matcher stops early (see C4): the record \<^verbatim>\<open>a.b.google.com\<close> is returned in the feed of a
  fresh instance, and so in the feed that \<^verbatim>\<open>main\<close> builds for the type \<^verbatim>\<open>fqdn\<close>.
\<close>

theorem fqdn_process_keeps_deep_subdomain:
  "fqdn_process fqdn_init
     [[(''observable'', PStr ''a.b.google.com''), (''confidence'', PInt 85), (''tags'', PList [])]] [] =
   (fqdn_init,
    Inr [[(''observable'', PStr ''a.b.google.com''), (''confidence'', PInt 85), (''tags'', PList [])]]) \<and>
   main_feed ipv6_process url_process ''fqdn''
     [[(''observable'', PStr ''a.b.google.com''), (''confidence'', PInt 85), (''tags'', PList [])]] [] =
   Inr [[(''observable'', PStr ''a.b.google.com''), (''confidence'', PInt 85), (''tags'', PList [])]]"
proof -
  let ?r = "[(''observable'', PStr ''a.b.google.com''), (''confidence'', PInt 85), (''tags'', PList [])]"
  have p: "fqdn_process fqdn_init [?r] [] = (fqdn_init, Inr [?r])"
    by (simp add: fqdn_process_def getitem_def match_whitelist_def mw_loop.simps fqdn_init_def
        FQDN_PERM_WHITELIST_def)
  have a: "aggregate [?r] ''observable'' ''confidence'' = Inr [?r]"
    by code_simp
  have f: "factory ''fqdn'' = Some Fqdn"
    by (simp add: factory_def plugins_def)
  from p a f show ?thesis
    by (simp add: main_feed_def)
qed

text \<open>
  Claim C4: the suffix matcher reports a match exactly when the candidate equals an inserted
  domain or has it as a label-aligned suffix. The three examples of the claim come out as
  stated, but \<^verbatim>\<open>a.b.google.com\<close>, which ends in \<^verbatim>\<open>.google.com\<close>, is not matched: the loop
  pops the list it iterates over and stops after half of the labels
  (\<open>match_whitelist_iff\<close>).
\<close>

theorem match_whitelist_misses_deep_subdomain:
  "match_whitelist {PStr ''google.com''} ''mail.google.com'' \<and>
   match_whitelist {PStr ''google.com''} ''evil.google.com'' \<and>
   \<not> match_whitelist {PStr ''google.com''} ''notgoogle.com'' \<and>
   ''a.b.google.com'' = ''a.b'' @ ''.'' @ ''google.com'' \<and>
   \<not> match_whitelist {PStr ''google.com''} ''a.b.google.com''"
  by (simp add: match_whitelist_def mw_loop.simps)

text \<open>
  Claim C5: exclusion is monotone in the dynamic whitelist. If the call with the larger
  whitelist returns a feed, so does the call with the smaller one on the same records (and,
  for \<^verbatim>\<open>Fqdn\<close>, the same instance state), and every record that the smaller whitelist
  excludes is excluded by the larger one as well.
\<close>

theorem whitelist_monotone:
  "(set W \<subseteq> set W' \<and> ipv4_process data W' = Inr rv' \<longrightarrow>
      (\<exists>rv. ipv4_process data W = Inr rv \<and> (\<forall>x\<in>set data. x \<notin> set rv \<longrightarrow> x \<notin> set rv'))) \<and>
   (set V \<subseteq> set V' \<and> fqdn_process self fdata V' = (self2, Inr fv') \<longrightarrow>
      (\<exists>self1 fv. fqdn_process self fdata V = (self1, Inr fv) \<and>
         (\<forall>x\<in>set fdata. x \<notin> set fv \<longrightarrow> x \<notin> set fv')))"
  using ipv4_monotone [of W W' data rv'] fqdn_monotone [of V V' self fdata self2 fv'] by blast

text \<open>
  Claim C5 on two IPv4 records with the whitelists \<^verbatim>\<open>[1.2.3.4]\<close> and
  \<^verbatim>\<open>[1.2.3.4, 5.6.7.0/24]\<close>, and on two domains with the whitelists \<^verbatim>\<open>[example.com]\<close> and
  \<^verbatim>\<open>[example.com, example.org]\<close>.
\<close>

theorem whitelist_monotone_witness:
  "set [[(''observable'', PStr ''1.2.3.4'')]] \<subseteq>
     set [[(''observable'', PStr ''1.2.3.4'')], [(''observable'', PStr ''5.6.7.0/24'')]] \<and>
   ipv4_process
     [[(''observable'', PStr ''1.2.3.4''), (''tags'', PList [])],
      [(''observable'', PStr ''5.6.7.8''), (''tags'', PList [])]]
     [[(''observable'', PStr ''1.2.3.4'')], [(''observable'', PStr ''5.6.7.0/24'')]] = Inr [] \<and>
   (\<exists>rv. ipv4_process
     [[(''observable'', PStr ''1.2.3.4''), (''tags'', PList [])],
      [(''observable'', PStr ''5.6.7.8''), (''tags'', PList [])]]
     [[(''observable'', PStr ''1.2.3.4'')]] = Inr rv) \<and>
   set [Val (PStr ''example.com'')] \<subseteq> set [Val (PStr ''example.com''), Val (PStr ''example.org'')] \<and>
   fqdn_process fqdn_init
     [[(''observable'', PStr ''www.example.com'')], [(''observable'', PStr ''example.org'')]]
     [Val (PStr ''example.com''), Val (PStr ''example.org'')] =
     (fqdn_init\<lparr>wl := insert (PStr ''example.org'') (insert (PStr ''example.com'') (wl fqdn_init))\<rparr>,
      Inr []) \<and>
   (\<exists>self1 fv. fqdn_process fqdn_init
     [[(''observable'', PStr ''www.example.com'')], [(''observable'', PStr ''example.org'')]]
     [Val (PStr ''example.com'')] = (self1, Inr fv))"
proof -
  let ?W = "[[(''observable'', PStr ''1.2.3.4'')]]"
  let ?W' = "[[(''observable'', PStr ''1.2.3.4'')], [(''observable'', PStr ''5.6.7.0/24'')]]"
  let ?data = "[[(''observable'', PStr ''1.2.3.4''), (''tags'', PList [])],
      [(''observable'', PStr ''5.6.7.8''), (''tags'', PList [])]]"
  let ?V = "[Val (PStr ''example.com'')]"
  let ?V' = "[Val (PStr ''example.com''), Val (PStr ''example.org'')]"
  let ?fdata = "[[(''observable'', PStr ''www.example.com'')], [(''observable'', PStr ''example.org'')]]"
  let ?s2 = "fqdn_init\<lparr>wl := insert (PStr ''example.org'') (insert (PStr ''example.com'') (wl fqdn_init))\<rparr>"
  have 1: "set ?W \<subseteq> set ?W'" by simp
  have 2: "ipv4_process ?data ?W' = Inr []" by code_simp
  have 3: "set ?V \<subseteq> set ?V'" by simp
  have 4: "fqdn_process fqdn_init ?fdata ?V' = (?s2, Inr [])"
    by (simp add: fqdn_process_def getitem_def match_whitelist_def mw_loop.simps)
  from whitelist_monotone [of ?W ?W' ?data "[]" ?V ?V' fqdn_init ?fdata ?s2 "[]"] 1 2 3 4
  show ?thesis by blast
qed

text \<open>
  Claim C6, as stated: changing the letter case of the candidate does not change the answer
  of the suffix matcher. It does: \<^verbatim>\<open>MAIL.GOOGLE.COM\<close> and \<^verbatim>\<open>mail.google.com\<close> differ in case
  only, and only the second matches a whitelist that contains \<^verbatim>\<open>google.com\<close>.
\<close>

theorem match_whitelist_case_counterexample:
  "same_modulo_case ''MAIL.GOOGLE.COM'' ''mail.google.com'' \<and>
   match_whitelist {PStr ''google.com''} ''mail.google.com'' \<and>
   \<not> match_whitelist {PStr ''google.com''} ''MAIL.GOOGLE.COM''"
  by code_simp

text \<open>
  Claim C6, amended: the suffix matcher is case-sensitive. It reports a match only if some
  whitelist entry occurs in the candidate character for character, as the whole candidate
  or as what follows one of its dots.
\<close>

theorem match_whitelist_exact:
  "match_whitelist s d \<longrightarrow> (\<exists>w. PStr w \<in> s \<and> (d = w \<or> (\<exists>p. d = p @ ''.'' @ w)))"
  using match_whitelist_literal by blast

text \<open>Claim C6, amended, at \<^verbatim>\<open>mail.google.com\<close> and the whitelist \<^verbatim>\<open>{google.com}\<close>.\<close>

theorem match_whitelist_exact_witness:
  "match_whitelist {PStr ''google.com''} ''mail.google.com'' \<and>
   (\<exists>w. PStr w \<in> {PStr ''google.com''} \<and>
        (''mail.google.com'' = w \<or> (\<exists>p. ''mail.google.com'' = p @ ''.'' @ w)))"
proof -
  have m: "match_whitelist {PStr ''google.com''} ''mail.google.com''"
    by (simp add: match_whitelist_def mw_loop.simps)
  with match_whitelist_exact [of "{PStr ''google.com''}" "''mail.google.com''"] show ?thesis
    by blast
qed



text \<open>
  Claim C8, as stated: for an unsupported type the pipeline fails with a dedicated error
  before any aggregation. In \<^verbatim>\<open>main\<close> the records are aggregated first: with the type
  \<^verbatim>\<open>email\<close> and a record without \<^verbatim>\<open>confidence\<close> the failure is the \<^verbatim>\<open>KeyError\<close> that
  \<^verbatim>\<open>aggregate\<close> raises, and with a complete record it is the \<^verbatim>\<open>TypeError\<close> of calling
  \<^verbatim>\<open>None\<close>.
\<close>

theorem main_feed_aggregates_first_counterexample:
  "main_feed ipv4_process ipv4_process ''email''
     [[(''observable'', PStr ''1.2.3.4''), (''tags'', PList [])]] [] = Inl (KeyError ''confidence'') \<and>
   aggregate [[(''observable'', PStr ''1.2.3.4''), (''tags'', PList [])]] ''observable'' ''confidence'' =
     Inl (KeyError ''confidence'') \<and>
   main_feed ipv4_process ipv4_process ''email''
     [[(''observable'', PStr ''1.2.3.4''), (''confidence'', PInt 85), (''tags'', PList [])]] [] =
     Inl TypeError"
  by code_simp

text \<open>
  Claim C8, amended: for every type outside \<^verbatim>\<open>ipv4\<close>, \<^verbatim>\<open>ipv6\<close>, \<^verbatim>\<open>fqdn\<close>, \<^verbatim>\<open>url\<close> the
  factory returns \<^verbatim>\<open>None\<close> and the feed branch returns no feed: it aggregates the records
  and then, unless the aggregation has raised, fails with \<^verbatim>\<open>TypeError\<close>.
\<close>

theorem main_feed_unknown_otype:
  "otype \<notin> {''ipv4'', ''ipv6'', ''fqdn'', ''url''} \<longrightarrow>
     factory otype = None \<and>
     main_feed ipv6_process url_process otype ret whitelist =
       (case aggregate ret ''observable'' ''confidence'' of
          Inl e \<Rightarrow> Inl e
        | Inr ret' \<Rightarrow> Inl TypeError)"
  by (simp add: factory_None main_feed_def split: sum.splits)

text \<open>
  Claim C8, amended, at the type \<^verbatim>\<open>email\<close> and one complete record.
\<close>

theorem main_feed_unknown_otype_witness:
  "''email'' \<notin> {''ipv4'', ''ipv6'', ''fqdn'', ''url''} \<and> factory ''email'' = None \<and>
   main_feed ipv4_process ipv4_process ''email''
     [[(''observable'', PStr ''1.2.3.4''), (''confidence'', PInt 85), (''tags'', PList [])]] [] =
   Inl TypeError"
proof -
  have 1: "''email'' \<notin> {''ipv4'', ''ipv6'', ''fqdn'', ''url''}" by simp
  have 2: "aggregate [[(''observable'', PStr ''1.2.3.4''), (''confidence'', PInt 85), (''tags'', PList [])]]
      ''observable'' ''confidence'' =
      Inr [[(''observable'', PStr ''1.2.3.4''), (''confidence'', PInt 85), (''tags'', PList [])]]"
    by code_simp
  from main_feed_unknown_otype [of "''email''" ipv4_process ipv4_process
      "[[(''observable'', PStr ''1.2.3.4''), (''confidence'', PInt 85), (''tags'', PList [])]]" "[]"] 1 2
  show ?thesis by simp
qed

text \<open>
  Claim C9, as stated: a record without \<^verbatim>\<open>observable\<close> makes feed processing fail with an
  error that identifies the record by its index. \<^verbatim>\<open>Ipv4.process\<close> skips such a record when
  its tags contain \<^verbatim>\<open>whitelist\<close> and returns a feed; and the \<^verbatim>\<open>KeyError\<close> that
  \<^verbatim>\<open>Fqdn.process\<close> raises is the same whether the record is the first or the second.
\<close>

theorem process_skips_missing_observable_counterexample:
  "map_of [(''tags'', PList [''whitelist''])] ''observable'' = None \<and>
   ipv4_process [[(''tags'', PList [''whitelist''])]] [] = Inr [] \<and>
   snd (fqdn_process fqdn_init
     [[(''tags'', PList [])], [(''observable'', PStr ''example.org''), (''tags'', PList [])]] []) =
     Inl (KeyError ''observable'') \<and>
   snd (fqdn_process fqdn_init
     [[(''observable'', PStr ''example.org''), (''tags'', PList [])], [(''tags'', PList [])]] []) =
     Inl (KeyError ''observable'')"
  by code_simp

text \<open>
  Claim C9, amended: on a list that contains a record without \<^verbatim>\<open>observable\<close>,
  \<^verbatim>\<open>Fqdn.process\<close> returns no feed, and neither does \<^verbatim>\<open>Ipv4.process\<close> unless the tags of
  that record contain \<^verbatim>\<open>whitelist\<close>. When the record is the first without a string
  observable and the whitelist is hashable, the error of \<^verbatim>\<open>Fqdn.process\<close> is the
  \<^verbatim>\<open>KeyError\<close> that names the field.
\<close>

theorem process_missing_observable:
  "x \<in> set data \<and> map_of x ''observable'' = None \<longrightarrow>
     (\<exists>e. snd (fqdn_process self data ws) = Inl e) \<and>
     (\<not> (\<exists>tg. getitem x ''tags'' = Inr tg \<and> tag_contains_whitelist tg = Inr True) \<longrightarrow>
        (\<exists>e. ipv4_process data W = Inl e)) \<and>
     (data = pre @ x # post \<and> (\<forall>y\<in>set pre. \<exists>d. getitem y ''observable'' = Inr (PStr d)) \<and>
      (\<forall>w\<in>set ws. \<exists>v. w = Val v \<and> hashable v) \<longrightarrow>
        snd (fqdn_process self data ws) = Inl (KeyError ''observable''))"
proof (intro impI conjI; (elim conjE)?)
  assume x: "x \<in> set data" and m: "map_of x ''observable'' = None"
  from m have no: "\<forall>d. getitem x ''observable'' \<noteq> Inr (PStr d)" by (simp add: getitem_def)
  show "\<exists>e. snd (fqdn_process self data ws) = Inl e"
  proof (cases "fqdn_add_all (wl self) ws")
    case (Pair s eo)
    show ?thesis
    proof (cases eo)
      case None
      with Pair fqdn_loop_Inl [OF x no, of s "[]"] show ?thesis
        by (auto simp: fqdn_process_def)
    next
      case (Some e)
      with Pair show ?thesis by (simp add: fqdn_process_def)
    qed
  qed
  {
    assume nt: "\<not> (\<exists>tg. getitem x ''tags'' = Inr tg \<and> tag_contains_whitelist tg = Inr True)"
    show "\<exists>e. ipv4_process data W = Inl e"
    proof (cases "ipv4_process data W")
      case (Inl e)
      then show ?thesis by blast
    next
      case (Inr rv)
      from ipv4_process_Inr [OF Inr] obtain t where "ipv4_loop t data [] = Inr rv" by blast
      moreover from ipv4_step_missing [OF m nt] obtain e where "ipv4_step t x = Inl e" by blast
      from ipv4_loop_Inl [OF x this] obtain e' where "ipv4_loop t data [] = Inl e'" by blast
      ultimately show ?thesis by simp
    qed
  }
  {
    assume d: "data = pre @ x # post"
      and p: "\<forall>y\<in>set pre. \<exists>d. getitem y ''observable'' = Inr (PStr d)"
      and h: "\<forall>w\<in>set ws. \<exists>v. w = Val v \<and> hashable v"
    from fqdn_add_all_hashable [OF h, of "wl self"] fqdn_loop_first_missing [OF p m] d
    show "snd (fqdn_process self data ws) = Inl (KeyError ''observable'')"
      by (simp add: fqdn_process_def)
  }
qed

text \<open>
  Claim C9, amended, on a list whose second record has no \<^verbatim>\<open>observable\<close>.
\<close>

theorem process_missing_observable_witness:
  "[(''tags'', PList [])] \<in> set [[(''observable'', PStr ''example.org''), (''tags'', PList [])], [(''tags'', PList [])]] \<and>
   map_of [(''tags'', PList [])] ''observable'' = None \<and>
   snd (fqdn_process fqdn_init
     [[(''observable'', PStr ''example.org''), (''tags'', PList [])], [(''tags'', PList [])]] []) =
     Inl (KeyError ''observable'') \<and>
   (\<exists>e. ipv4_process
     [[(''observable'', PStr ''example.org''), (''tags'', PList [])], [(''tags'', PList [])]] [] = Inl e)"
proof -
  let ?x = "[(''tags'', PList [])]"
  let ?g = "[(''observable'', PStr ''example.org''), (''tags'', PList [])]"
  have 1: "?x \<in> set [?g, ?x]" by simp
  have 2: "map_of ?x ''observable'' = None" by simp
  have 3: "\<not> (\<exists>tg. getitem ?x ''tags'' = Inr tg \<and> tag_contains_whitelist tg = Inr True)"
    by (simp add: getitem_def)
  have 4: "[?g, ?x] = [?g] @ ?x # []" by simp
  have 5: "\<forall>y\<in>set [?g]. \<exists>d. getitem y ''observable'' = Inr (PStr d)" by (simp add: getitem_def)
  have 6: "\<forall>w\<in>set ([]::pyobj list). \<exists>v. w = Val v \<and> hashable v" by simp
  from process_missing_observable [of ?x "[?g, ?x]" fqdn_init "[]" "[]" "[?g]" "[]"] 1 2 3 4 5 6
  show ?thesis by blast
qed

text \<open>
  Claim C10: \<^verbatim>\<open>Fqdn.process\<close> changes the whitelist set of the instance. After a call
  whose whitelist argument consists of hashable values (domain strings), every one of them
  is in the set of the instance, it is still there after a later call with an empty
  whitelist, and that later call excludes every record whose observable the matcher
  matches against that entry alone.
\<close>

theorem fqdn_whitelist_accumulates:
  assumes "\<forall>w\<in>set whitelist. \<exists>v. w = Val v \<and> hashable v"
    and "Val w \<in> set whitelist"
    and "fqdn_process self data1 whitelist = (self1, r1)"
    and "fqdn_process self1 data2 [] = (self2, r2)"
  shows "w \<in> wl self1 \<and> w \<in> wl self2 \<and>
    (\<forall>rv2 x d. r2 = Inr rv2 \<and> x \<in> set data2 \<and> getitem x ''observable'' = Inr (PStr d) \<and>
        match_whitelist {w} d \<longrightarrow> x \<notin> set rv2)"
proof -
  from fqdn_process_state [OF assms(1), of self data1] assms(2,3) have w1: "w \<in> wl self1"
    by simp
  have "\<forall>w\<in>set ([]::pyobj list). \<exists>v. w = Val v \<and> hashable v" by simp
  from fqdn_process_state [OF this, of self1 data2] assms(4) have eq: "wl self2 = wl self1"
    by simp
  have "x \<notin> set rv2" if "r2 = Inr rv2" "x \<in> set data2" "getitem x ''observable'' = Inr (PStr d)"
    "match_whitelist {w} d" for rv2 x d
  proof -
    from that(1) assms(4) have "fqdn_process self1 data2 [] = (self2, Inr rv2)" by simp
    note p = fqdn_process_Inr [OF this]
    from w1 eq have "{w} \<subseteq> wl self2" by simp
    from match_whitelist_mono [OF this that(4)] that(3) have "\<not> fqdn_kept (wl self2) x"
      by (simp add: fqdn_kept_def)
    with p(3) show ?thesis by simp
  qed
  with w1 eq show ?thesis by blast
qed

text \<open>
  Claim C10 with \<^verbatim>\<open>example.com\<close>: after it was passed once, a call with an empty whitelist
  excludes \<^verbatim>\<open>www.example.com\<close>, which a fresh instance keeps.
\<close>

theorem fqdn_whitelist_accumulates_witness:
  "PStr ''example.com'' \<in> wl (fst (fqdn_process fqdn_init [] [Val (PStr ''example.com'')])) \<and>
   fqdn_process (fst (fqdn_process fqdn_init [] [Val (PStr ''example.com'')]))
     [[(''observable'', PStr ''www.example.com'')]] [] =
     (fqdn_init\<lparr>wl := insert (PStr ''example.com'') (wl fqdn_init)\<rparr>, Inr []) \<and>
   fqdn_process fqdn_init [[(''observable'', PStr ''www.example.com'')]] [] =
     (fqdn_init, Inr [[(''observable'', PStr ''www.example.com'')]])"
proof -
  let ?s1 = "fqdn_init\<lparr>wl := insert (PStr ''example.com'') (wl fqdn_init)\<rparr>"
  have 1: "\<forall>w\<in>set [Val (PStr ''example.com'')]. \<exists>v. w = Val v \<and> hashable v" by simp
  have 2: "Val (PStr ''example.com'') \<in> set [Val (PStr ''example.com'')]" by simp
  have 3: "fqdn_process fqdn_init [] [Val (PStr ''example.com'')] = (?s1, Inr [])"
    by (simp add: fqdn_process_def)
  have 4: "fqdn_process ?s1 [[(''observable'', PStr ''www.example.com'')]] [] = (?s1, Inr [])"
    by (simp add: fqdn_process_def getitem_def match_whitelist_def mw_loop.simps)
  have 5: "fqdn_process fqdn_init [[(''observable'', PStr ''www.example.com'')]] [] =
     (fqdn_init, Inr [[(''observable'', PStr ''www.example.com'')]])"
    by (simp add: fqdn_process_def getitem_def match_whitelist_def mw_loop.simps fqdn_init_def
        FQDN_PERM_WHITELIST_def)
  from fqdn_whitelist_accumulates [OF 1 2 3 4] have "PStr ''example.com'' \<in> wl ?s1" by blast
  with 3 4 5 show ?thesis by simp
qed

end
